theory Spec2Isabelle
  imports Main "HOL-Library.Word" "HOL-Library.Signed_Division"
begin

section \<open>Arduino mobile phone: keypad hit test, dial line and call sequence\<close>

text \<open>
  A shallow embedding of \<^verbatim>\<open>Arduino_Mobile_Phone.ino\<close>. The sketch targets the Arduino
  Uno (AVR): \<^verbatim>\<open>int\<close> and \<^verbatim>\<open>size_t\<close> are 16 bits wide, \<^verbatim>\<open>long\<close> is 32 bits wide.
  \<^verbatim>\<open>uint16_t\<close> and \<^verbatim>\<open>int16_t\<close> are both 16-bit words; a signed value is read with
  \<open>sint\<close> and compared with \<open><s\<close>, an unsigned one is read with \<open>unat\<close> and compared
  with \<open><\<close>.
\<close>

type_synonym u8 = "8 word"
type_synonym u16 = "16 word"
type_synonym i16 = "16 word"
type_synonym long = "32 word"

subsection \<open>Constants of the sketch\<close>

definition BLACK :: u16 where "BLACK = 0x0000"
definition BLUE :: u16 where "BLUE = 0x001F"
definition RED :: u16 where "RED = 0xF800"
definition GREEN :: u16 where "GREEN = 0x07E0"
definition CYAN :: u16 where "CYAN = 0x07FF"
definition WHITE :: u16 where "WHITE = 0xFFFF"
definition OLIVE :: u16 where "OLIVE = 0x7BE0"
definition LIGHTGREY :: u16 where "LIGHTGREY = 0xC618"
definition DARKGREY :: u16 where "DARKGREY = 0x7BEF"
definition GREENYELLOW :: u16 where "GREENYELLOW = 0xAFE5"
definition PINK :: u16 where "PINK = 0xF81F"

definition BUTTON_R :: u16 where "BUTTON_R = 25"
definition BUTTON_SPACING_X :: u16 where "BUTTON_SPACING_X = 25"
definition BUTTON_SPACING_Y :: u16 where "BUTTON_SPACING_Y = 5"
definition EDG_Y :: u16 where "EDG_Y = 5"
definition EDG_X :: u16 where "EDG_X = 20"

definition TS_MINX :: long where "TS_MINX = 910"
definition TS_MAXX :: long where "TS_MAXX = 180"
definition TS_MINY :: long where "TS_MINY = 760"
definition TS_MAXY :: long where "TS_MAXY = 135"

definition MINPRESSURE :: i16 where "MINPRESSURE = 10"
definition MAXPRESSURE :: i16 where "MAXPRESSURE = 1000"

text \<open>
  The display object is constructed as \<^verbatim>\<open>my_lcd(240, 320, ...)\<close> (width, height) and is
  never rotated, so the two size queries of the display library return these
  arguments. \<^verbatim>\<open>CENTER\<close> is the display library's marker for a centred text column;
  nothing below depends on its value.
\<close>

definition Get_Display_Width :: i16 where "Get_Display_Width = 240"
definition Get_Display_Height :: i16 where "Get_Display_Height = 320"
definition CENTER :: i16 where "CENTER = 9998"

subsection \<open>Effects\<close>

text \<open>
  Every call into the display, touch, pin and serial libraries is recorded, in program
  order, as one event of the output trace.
\<close>

datatype pin = Pin nat | APin nat
datatype level = LOW | HIGH
datatype pin_mode = INPUT | OUTPUT

definition YP :: pin where "YP = APin 1"
definition XM :: pin where "XM = APin 2"

datatype event =
    digitalWrite pin level
  | ts_getPoint
  | pinMode pin pin_mode
  | Set_Draw_color u16
  | Fill_Circle i16 i16 i16
  | Fill_Rectangle i16 i16 i16 i16
  | Set_Text_Mode bool
  | Set_Text_Size u8
  | Set_Text_colour u16
  | Set_Text_Back_colour u16
  | Print_String string i16 i16
  | delay nat
  | mySerial_println string
  | mySerial_write u8
  | Serial_write u8

subsection \<open>Data\<close>

record button_info =
  button_name :: string
  button_name_size :: u8
  button_name_colour :: u16
  button_colour :: u16
  button_x :: u16
  button_y :: u16

definition phone_button :: "button_info list" where
  "phone_button = [
    \<lparr>button_name = ''1'', button_name_size = 3, button_name_colour = BLACK, button_colour = CYAN,
     button_x = EDG_X + BUTTON_R - 1,
     button_y = Get_Display_Height - EDG_Y - 4 * BUTTON_SPACING_Y - 9 * BUTTON_R - 1\<rparr>,
    \<lparr>button_name = ''2'', button_name_size = 3, button_name_colour = BLACK, button_colour = CYAN,
     button_x = EDG_X + 3 * BUTTON_R + BUTTON_SPACING_X - 1,
     button_y = Get_Display_Height - EDG_Y - 4 * BUTTON_SPACING_Y - 9 * BUTTON_R - 1\<rparr>,
    \<lparr>button_name = ''3'', button_name_size = 3, button_name_colour = BLACK, button_colour = CYAN,
     button_x = EDG_X + 5 * BUTTON_R + 2 * BUTTON_SPACING_X - 1,
     button_y = Get_Display_Height - EDG_Y - 4 * BUTTON_SPACING_Y - 9 * BUTTON_R - 1\<rparr>,
    \<lparr>button_name = ''4'', button_name_size = 3, button_name_colour = BLACK, button_colour = CYAN,
     button_x = EDG_X + BUTTON_R - 1,
     button_y = Get_Display_Height - EDG_Y - 3 * BUTTON_SPACING_Y - 7 * BUTTON_R - 1\<rparr>,
    \<lparr>button_name = ''5'', button_name_size = 3, button_name_colour = BLACK, button_colour = CYAN,
     button_x = EDG_X + 3 * BUTTON_R + BUTTON_SPACING_X - 1,
     button_y = Get_Display_Height - EDG_Y - 3 * BUTTON_SPACING_Y - 7 * BUTTON_R - 1\<rparr>,
    \<lparr>button_name = ''6'', button_name_size = 3, button_name_colour = BLACK, button_colour = CYAN,
     button_x = EDG_X + 5 * BUTTON_R + 2 * BUTTON_SPACING_X - 1,
     button_y = Get_Display_Height - EDG_Y - 3 * BUTTON_SPACING_Y - 7 * BUTTON_R - 1\<rparr>,
    \<lparr>button_name = ''7'', button_name_size = 3, button_name_colour = BLACK, button_colour = CYAN,
     button_x = EDG_X + BUTTON_R - 1,
     button_y = Get_Display_Height - EDG_Y - 2 * BUTTON_SPACING_Y - 5 * BUTTON_R - 1\<rparr>,
    \<lparr>button_name = ''8'', button_name_size = 3, button_name_colour = BLACK, button_colour = CYAN,
     button_x = EDG_X + 3 * BUTTON_R + BUTTON_SPACING_X - 1,
     button_y = Get_Display_Height - EDG_Y - 2 * BUTTON_SPACING_Y - 5 * BUTTON_R - 1\<rparr>,
    \<lparr>button_name = ''9'', button_name_size = 3, button_name_colour = BLACK, button_colour = CYAN,
     button_x = EDG_X + 5 * BUTTON_R + 2 * BUTTON_SPACING_X - 1,
     button_y = Get_Display_Height - EDG_Y - 2 * BUTTON_SPACING_Y - 5 * BUTTON_R - 1\<rparr>,
    \<lparr>button_name = ''#'', button_name_size = 3, button_name_colour = BLACK, button_colour = PINK,
     button_x = EDG_X + BUTTON_R - 1,
     button_y = Get_Display_Height - EDG_Y - BUTTON_SPACING_Y - 3 * BUTTON_R - 1\<rparr>,
    \<lparr>button_name = ''0'', button_name_size = 3, button_name_colour = BLACK, button_colour = CYAN,
     button_x = EDG_X + 3 * BUTTON_R + BUTTON_SPACING_X - 1,
     button_y = Get_Display_Height - EDG_Y - BUTTON_SPACING_Y - 3 * BUTTON_R - 1\<rparr>,
    \<lparr>button_name = ''*'', button_name_size = 3, button_name_colour = BLACK, button_colour = PINK,
     button_x = EDG_X + 5 * BUTTON_R + 2 * BUTTON_SPACING_X - 1,
     button_y = Get_Display_Height - EDG_Y - BUTTON_SPACING_Y - 3 * BUTTON_R - 1\<rparr>,
    \<lparr>button_name = ''end'', button_name_size = 2, button_name_colour = BLACK, button_colour = RED,
     button_x = EDG_X + BUTTON_R - 1,
     button_y = Get_Display_Height - EDG_Y - BUTTON_R - 1\<rparr>,
    \<lparr>button_name = ''call'', button_name_size = 2, button_name_colour = BLACK, button_colour = GREEN,
     button_x = EDG_X + 3 * BUTTON_R + BUTTON_SPACING_X - 1,
     button_y = Get_Display_Height - EDG_Y - BUTTON_R - 1\<rparr>,
    \<lparr>button_name = ''dele'', button_name_size = 2, button_name_colour = BLACK, button_colour = LIGHTGREY,
     button_x = EDG_X + 5 * BUTTON_R + 2 * BUTTON_SPACING_X - 1,
     button_y = Get_Display_Height - EDG_Y - BUTTON_R - 1\<rparr>]"

text \<open>The sample returned by \<^verbatim>\<open>ts.getPoint()\<close>: three \<^verbatim>\<open>int16_t\<close> fields.\<close>

record TSPoint =
  x :: i16
  y :: i16
  z :: i16

text \<open>
  The mutable globals \<^verbatim>\<open>text_x\<close> and \<^verbatim>\<open>n\<close>, the output trace, and the number of
  polls made so far on each serial receive buffer.
\<close>

record phone_state =
  text_x :: u16
  n :: u16
  out :: "event list"
  Serial_polls :: nat
  mySerial_polls :: nat

text \<open>
  The serial receive side is the environment's: the \<open>k\<close>-th poll of
  \<^verbatim>\<open>Serial.available()\<close> finds either nothing (\<open>None\<close>) or a byte, which the following
  \<^verbatim>\<open>read()\<close> returns, and likewise for \<^verbatim>\<open>mySerial\<close>.
\<close>

record serial_env =
  Serial_rx :: "nat \<Rightarrow> u8 option"
  mySerial_rx :: "nat \<Rightarrow> u8 option"

text \<open>The globals that are initialised once and never assigned again.\<close>

definition text_y :: u16 where "text_y = 6"
definition text_x_add :: u16 where
  "text_x_add = 6 * ucast (button_name_size (phone_button ! 0))"
definition text_y_add :: u16 where
  "text_y_add = 8 * ucast (button_name_size (phone_button ! 0))"

definition init_state :: phone_state where
  "init_state = \<lparr>text_x = 10, n = 0, out = [], Serial_polls = 0, mySerial_polls = 0\<rparr>"

subsection \<open>Functions of the sketch\<close>

definition emit :: "event list \<Rightarrow> phone_state \<Rightarrow> phone_state" where
  "emit evs s = s\<lparr>out := out s @ evs\<rparr>"

definition show_string :: "string \<Rightarrow> i16 \<Rightarrow> i16 \<Rightarrow> u8 \<Rightarrow> u16 \<Rightarrow> u16 \<Rightarrow> bool \<Rightarrow> event list" where
  "show_string str a b csize fc bc mode =
     [Set_Text_Mode mode, Set_Text_Size csize, Set_Text_colour fc, Set_Text_Back_colour bc,
      Print_String str a b]"

definition is_pressed :: "i16 \<Rightarrow> i16 \<Rightarrow> i16 \<Rightarrow> i16 \<Rightarrow> i16 \<Rightarrow> i16 \<Rightarrow> bool" where
  "is_pressed x1 y1 x2 y2 px py = ((x1 <s px \<and> px <s x2) \<and> (y1 <s py \<and> py <s y2))"

text \<open>
  \<^verbatim>\<open>map\<close> of the Arduino core, on \<^verbatim>\<open>long\<close>:
  \<^verbatim>\<open>(x - in_min) * (out_max - out_min) / (in_max - in_min) + out_min\<close>, where \<^verbatim>\<open>/\<close>
  truncates towards zero.
\<close>

definition long_div :: "long \<Rightarrow> long \<Rightarrow> long" where
  "long_div a b = word_of_int (sint a sdiv sint b)"

definition map_long :: "long \<Rightarrow> long \<Rightarrow> long \<Rightarrow> long \<Rightarrow> long \<Rightarrow> long" where
  "map_long v in_min in_max out_min out_max =
     long_div ((v - in_min) * (out_max - out_min)) (in_max - in_min) + out_min"

text \<open>The two relay loops of \<^verbatim>\<open>updateSerial\<close>. A loop that is fed for ever returns nothing.\<close>

partial_function (option) relay_Serial :: "serial_env \<Rightarrow> phone_state \<Rightarrow> phone_state option" where
  "relay_Serial e s =
     (case Serial_rx e (Serial_polls s) of
        None \<Rightarrow> Some (s\<lparr>Serial_polls := Suc (Serial_polls s)\<rparr>)
      | Some b \<Rightarrow>
          relay_Serial e (s\<lparr>out := out s @ [mySerial_write b], Serial_polls := Suc (Serial_polls s)\<rparr>))"

partial_function (option) relay_mySerial :: "serial_env \<Rightarrow> phone_state \<Rightarrow> phone_state option" where
  "relay_mySerial e s =
     (case mySerial_rx e (mySerial_polls s) of
        None \<Rightarrow> Some (s\<lparr>mySerial_polls := Suc (mySerial_polls s)\<rparr>)
      | Some b \<Rightarrow>
          relay_mySerial e (s\<lparr>out := out s @ [Serial_write b], mySerial_polls := Suc (mySerial_polls s)\<rparr>))"

declare relay_Serial.simps [code]
declare relay_mySerial.simps [code]

definition updateSerial :: "serial_env \<Rightarrow> phone_state \<Rightarrow> phone_state option" where
  "updateSerial e s =
     (case relay_Serial e (emit [delay 500] s) of
        None \<Rightarrow> None
      | Some s1 \<Rightarrow> relay_mySerial e s1)"

text \<open>The label position used by every redraw of a button (lines 166, 204 and 208).\<close>

definition label_x :: "button_info \<Rightarrow> i16" where
  "label_x b = button_x b - of_nat (length (button_name b)) * ucast (button_name_size b) * 6 div 2 + 1"

definition label_y :: "button_info \<Rightarrow> i16" where
  "label_y b = button_y b - ucast (button_name_size b) * 8 div 2 + 1"

text \<open>Lines 202 to 208: the press-feedback flash.\<close>

definition flash :: "button_info \<Rightarrow> event list" where
  "flash b =
     [Set_Draw_color DARKGREY, Fill_Circle (button_x b) (button_y b) BUTTON_R]
     @ show_string (button_name b) (label_x b) (label_y b) (button_name_size b) WHITE BLACK True
     @ [delay 100]
     @ [Set_Draw_color (button_colour b), Fill_Circle (button_x b) (button_y b) BUTTON_R]
     @ show_string (button_name b) (label_x b) (label_y b) (button_name_size b)
         (button_name_colour b) BLACK True"

text \<open>Lines 210 to 238: the dispatch on the button index.\<close>

definition banner :: "string \<Rightarrow> event list" where
  "banner str =
     [Set_Draw_color BLUE, Fill_Rectangle 0 33 (Get_Display_Width - 1) 42]
     @ show_string str CENTER 33 1 OLIVE BLACK True"

definition dispatch :: "serial_env \<Rightarrow> nat \<Rightarrow> phone_state \<Rightarrow> phone_state option" where
  "dispatch e i s =
     (if i < 12 then
        (if n s < 13 then
           Some ((emit (show_string (button_name (phone_button ! i)) (text_x s) text_y
                          (button_name_size (phone_button ! i)) GREENYELLOW BLACK True) s)
                 \<lparr>text_x := text_x s + (text_x_add - 1), n := n s + 1\<rparr>)
         else Some s)
      else if i = 12 then
        Some (emit (banner ''Calling ended'') s)
      else if i = 13 then
        (case updateSerial e (emit (banner ''Calling...'' @ [mySerial_println ''ATD+916374354166;'']) s) of
           None \<Rightarrow> None
         | Some s1 \<Rightarrow> updateSerial e (emit [delay 20000, mySerial_println ''ATH''] s1))
      else if i = 14 then
        (if 0 < n s then
           Some ((emit [Set_Draw_color BLUE,
                        Fill_Rectangle (text_x s - (text_x_add - 1)) text_y
                          (text_x s - (text_x_add - 1) + text_x_add - 1) (text_y + text_y_add - 2)] s)
                 \<lparr>text_x := text_x s - (text_x_add - 1), n := n s - 1\<rparr>)
         else Some s)
      else Some s)"

definition button_body :: "serial_env \<Rightarrow> nat \<Rightarrow> phone_state \<Rightarrow> phone_state option" where
  "button_body e i s = dispatch e i (emit (flash (phone_button ! i)) s)"

text \<open>Line 201: the hit test of one button against the mapped point.\<close>

definition button_hit :: "button_info \<Rightarrow> i16 \<Rightarrow> i16 \<Rightarrow> bool" where
  "button_hit b px py =
     is_pressed (button_x b - BUTTON_R) (button_y b - BUTTON_R)
                (button_x b + BUTTON_R) (button_y b + BUTTON_R) px py"

text \<open>Lines 200 to 240: the loop over the button table; it has no \<^verbatim>\<open>break\<close>.\<close>

function for_buttons :: "serial_env \<Rightarrow> i16 \<Rightarrow> i16 \<Rightarrow> nat \<Rightarrow> phone_state \<Rightarrow> phone_state option" where
  "for_buttons e px py i s =
     (if i < length phone_button then
        (if button_hit (phone_button ! i) px py then
           (case button_body e i s of
              None \<Rightarrow> None
            | Some s1 \<Rightarrow> for_buttons e px py (i + 1) s1)
         else for_buttons e px py (i + 1) s)
      else Some s)"
  by pat_completeness auto
termination
  by (relation "measure (\<lambda>(e, px, py, i, s). length phone_button - i)") auto

declare for_buttons.simps [simp del]

text \<open>Lines 189 to 194: the sample is taken and the shared pins are restored.\<close>

definition sample_touch :: "event list" where
  "sample_touch =
     [digitalWrite (Pin 13) HIGH, ts_getPoint, digitalWrite (Pin 13) LOW,
      pinMode XM OUTPUT, pinMode YP OUTPUT]"

definition map_x :: "i16 \<Rightarrow> i16" where
  "map_x v = ucast (map_long (scast v) TS_MINX TS_MAXX 0 (scast Get_Display_Width))"

definition map_y :: "i16 \<Rightarrow> i16" where
  "map_y v = ucast (map_long (scast v) TS_MINY TS_MAXY 0 (scast Get_Display_Height))"

definition loop :: "serial_env \<Rightarrow> TSPoint \<Rightarrow> phone_state \<Rightarrow> phone_state option" where
  "loop e p s =
     (if MINPRESSURE <s z p \<and> z p <s MAXPRESSURE then
        for_buttons e (map_x (x p)) (map_y (y p)) 0 (emit sample_touch s)
      else Some (emit sample_touch s))"

text \<open>The main program calls \<^verbatim>\<open>loop\<close> for ever; a run is a finite prefix, one sample per call.\<close>

fun run :: "serial_env \<Rightarrow> phone_state \<Rightarrow> TSPoint list \<Rightarrow> phone_state option" where
  "run e s [] = Some s"
| "run e s (p # ps) = (case loop e p s of None \<Rightarrow> None | Some s1 \<Rightarrow> run e s1 ps)"

subsection \<open>Vocabulary of the properties\<close>

text \<open>
  The bounding square of a button, in unbounded integers: the open square of the hit
  test, and the four lines that carry its edges.
\<close>

definition strictly_inside :: "button_info \<Rightarrow> i16 \<Rightarrow> i16 \<Rightarrow> bool" where
  "strictly_inside b px py =
     (uint (button_x b) - uint BUTTON_R < sint px \<and> sint px < uint (button_x b) + uint BUTTON_R
      \<and> uint (button_y b) - uint BUTTON_R < sint py \<and> sint py < uint (button_y b) + uint BUTTON_R)"

definition on_boundary :: "button_info \<Rightarrow> i16 \<Rightarrow> i16 \<Rightarrow> bool" where
  "on_boundary b px py =
     (sint px = uint (button_x b) - uint BUTTON_R \<or> sint px = uint (button_x b) + uint BUTTON_R
      \<or> sint py = uint (button_y b) - uint BUTTON_R \<or> sint py = uint (button_y b) + uint BUTTON_R)"

text \<open>
  A sample presses button \<open>i\<close> when its pressure lies strictly between the two
  thresholds and its mapped point lies strictly inside the bounding square of the button.
\<close>

definition presses :: "nat \<Rightarrow> TSPoint \<Rightarrow> bool" where
  "presses i p =
     (10 < sint (z p) \<and> sint (z p) < 1000
      \<and> strictly_inside (phone_button ! i) (map_x (x p)) (map_y (y p)))"

text \<open>A receive buffer that is not fed for ever: after every poll some later poll finds it empty.\<close>

definition eventually_quiet :: "(nat \<Rightarrow> u8 option) \<Rightarrow> bool" where
  "eventually_quiet rx = (\<forall>k. \<exists>j. rx (k + j) = None)"

text \<open>The cursor position as a function of the count, with the count within capacity.\<close>

definition cursor_inv :: "phone_state \<Rightarrow> bool" where
  "cursor_inv s = (unat (n s) \<le> 13 \<and> unat (text_x s) = 10 + unat (n s) * unat (text_x_add - 1))"

text \<open>
  The command lines handed to \<^verbatim>\<open>mySerial.println\<close> (which ends each line itself), and
  the events that put anything on the modem link at all.
\<close>

fun println_of :: "event \<Rightarrow> string list" where
  "println_of (mySerial_println c) = [c]"
| "println_of _ = []"

definition modem_commands :: "event list \<Rightarrow> string list" where
  "modem_commands tr = concat (map println_of tr)"

fun to_modem :: "event \<Rightarrow> bool" where
  "to_modem (mySerial_println c) = True"
| "to_modem (mySerial_write b) = True"
| "to_modem _ = False"

text \<open>The pattern \<^verbatim>\<open>ATD\+?\d+;\<close>: the prefix, an optional plus sign, one or more digits, a semicolon.\<close>

definition is_digit :: "char \<Rightarrow> bool" where
  "is_digit c = (c \<in> set ''0123456789'')"

definition matches_dial_pattern :: "string \<Rightarrow> bool" where
  "matches_dial_pattern cmd =
     (take 3 cmd = ''ATD''
      \<and> (let r = drop 3 cmd;
              d = (case r of [] \<Rightarrow> [] | c # t \<Rightarrow> if c = CHR ''+'' then t else r)
          in d \<noteq> [] \<and> last d = CHR '';'' \<and> butlast d \<noteq> [] \<and> list_all is_digit (butlast d)))"

text \<open>
  The call branch in two steps: lines 221 to 226 (banner and dial command) and lines 228
  to 229 (hold and hang-up command). Each is followed by one call of \<^verbatim>\<open>updateSerial\<close>.
\<close>

definition call_dial :: "phone_state \<Rightarrow> phone_state" where
  "call_dial s = emit (banner ''Calling...'' @ [mySerial_println ''ATD+916374354166;'']) s"

definition call_hang_up :: "phone_state \<Rightarrow> phone_state" where
  "call_hang_up s = emit [delay 20000, mySerial_println ''ATH''] s"

text \<open>
  A relay loop that starts polling at poll \<open>k\<close> ends when poll \<open>k + j\<close> is the first
  to find the buffer empty; the bytes it has read by then are those of polls \<open>k\<close> to
  \<open>k + j - 1\<close>.
\<close>

definition first_empty :: "(nat \<Rightarrow> u8 option) \<Rightarrow> nat \<Rightarrow> nat \<Rightarrow> bool" where
  "first_empty rx k j = (rx (k + j) = None \<and> (\<forall>i<j. rx (k + i) \<noteq> None))"

definition polled :: "(nat \<Rightarrow> u8 option) \<Rightarrow> nat \<Rightarrow> nat \<Rightarrow> u8 list" where
  "polled rx k j = map (\<lambda>i. the (rx i)) [k..<k + j]"

text \<open>What an observer sees of a result: the count and the cursor, and the events on the modem link.\<close>

definition dial_line :: "phone_state option \<Rightarrow> (nat \<times> nat) option" where
  "dial_line r = map_option (\<lambda>s. (unat (n s), unat (text_x s))) r"

definition modem_traffic :: "phone_state option \<Rightarrow> event list option" where
  "modem_traffic r = map_option (\<lambda>s. filter to_modem (out s)) r"

text \<open>Concrete inputs on which the model is evaluated below.\<close>

definition quiet_env :: serial_env where
  "quiet_env = \<lparr>Serial_rx = (\<lambda>k. None), mySerial_rx = (\<lambda>k. None)\<rparr>"

text \<open>The modem answers \<^verbatim>\<open>OK\<close>; the console stays silent.\<close>

definition answering_env :: serial_env where
  "answering_env =
     \<lparr>Serial_rx = (\<lambda>k. None),
      mySerial_rx = (\<lambda>k. if k = 0 then Some 79 else if k = 1 then Some 75 else None)\<rparr>"

text \<open>The console is fed for ever: every poll of \<^verbatim>\<open>Serial.available()\<close> finds a byte.\<close>

definition flooding_env :: serial_env where
  "flooding_env = \<lparr>Serial_rx = (\<lambda>k. Some 65), mySerial_rx = (\<lambda>k. None)\<rparr>"

text \<open>The operator types a dial command of their own on the console, then stops.\<close>

definition typed_line :: string where
  "typed_line = ''ATD112;'' @ [CHR 0x0D, CHR 0x0A]"

definition typing_env :: serial_env where
  "typing_env =
     \<lparr>Serial_rx = (\<lambda>k. if k < length typed_line then Some (of_char (typed_line ! k)) else None),
      mySerial_rx = (\<lambda>k. None)\<rparr>"

text \<open>Raw samples that land on the keys \<^verbatim>\<open>5\<close>, \<^verbatim>\<open>end\<close>, \<^verbatim>\<open>call\<close> and \<^verbatim>\<open>dele\<close>.\<close>

definition touch_5 :: TSPoint where "touch_5 = \<lparr>x = 548, y = 518, z = 300\<rparr>"
definition touch_end :: TSPoint where "touch_end = \<lparr>x = 776, y = 195, z = 300\<rparr>"
definition touch_call :: TSPoint where "touch_call = \<lparr>x = 548, y = 195, z = 300\<rparr>"
definition touch_dele :: TSPoint where "touch_dele = \<lparr>x = 320, y = 195, z = 300\<rparr>"

section \<open>The button table\<close>

lemmas ui_defs = BUTTON_R_def BUTTON_SPACING_X_def BUTTON_SPACING_Y_def EDG_X_def EDG_Y_def
  Get_Display_Height_def Get_Display_Width_def

lemma length_phone_button: "length phone_button = 15"
  by (simp add: phone_button_def)

lemma index_cases:
  "i < (15::nat) \<Longrightarrow> i \<in> {0, 1, 2, 3, 4, 5, 6, 7, 8, 9, 10, 11, 12, 13, 14}"
  by simp arith

lemma button_centres:
  "i < 15 \<Longrightarrow> button_x (phone_button ! i) = 44 + 75 * of_nat (i mod 3)
     \<and> button_y (phone_button ! i) = 69 + 55 * of_nat (i div 3)"
  by (drule index_cases, simp, elim disjE; simp add: phone_button_def ui_defs)

lemma uint_centres:
  assumes "i < 15"
  shows "uint (button_x (phone_button ! i)) = 44 + 75 * int (i mod 3)"
    and "uint (button_y (phone_button ! i)) = 69 + 55 * int (i div 3)"
  using assms by (auto dest!: index_cases simp: button_centres)

lemma button_hit_iff:
  assumes "i < 15"
  shows "button_hit (phone_button ! i) px py = strictly_inside (phone_button ! i) px py"
  using assms
  by (auto dest!: index_cases simp: button_hit_def is_pressed_def strictly_inside_def button_centres
        BUTTON_R_def word_sless_alt)

lemma squares_disjoint:
  assumes "i < 15" "j < 15"
    and "strictly_inside (phone_button ! i) px py" "strictly_inside (phone_button ! j) px py"
  shows "i = j"
proof -
  from assms have "75 * int (i mod 3) - 50 < 75 * int (j mod 3)" "75 * int (j mod 3) - 50 < 75 * int (i mod 3)"
    "55 * int (i div 3) - 50 < 55 * int (j div 3)" "55 * int (j div 3) - 50 < 55 * int (i div 3)"
    by (simp_all add: strictly_inside_def uint_centres BUTTON_R_def)
  then have "i mod 3 = j mod 3" "i div 3 = j div 3" by linarith+
  then show ?thesis by (metis div_mult_mod_eq)
qed

lemma for_buttons_no_hit:
  "(\<And>j. i \<le> j \<Longrightarrow> j < length phone_button \<Longrightarrow> \<not> button_hit (phone_button ! j) px py)
     \<Longrightarrow> for_buttons e px py i s = Some s"
proof (induction e px py i s rule: for_buttons.induct)
  case (1 e px py i s)
  show ?case
  proof (cases "i < length phone_button")
    case True
    then have "\<not> button_hit (phone_button ! i) px py" using "1.prems" by simp
    moreover have "for_buttons e px py (i + 1) s = Some s"
      using True \<open>\<not> button_hit (phone_button ! i) px py\<close> "1.prems" by (intro "1.IH"(2)) simp_all
    ultimately show ?thesis using True by (simp add: for_buttons.simps[of e px py i s])
  next
    case False
    then show ?thesis by (simp add: for_buttons.simps[of e px py i s])
  qed
qed

lemma for_buttons_one_hit:
  "i \<le> k \<Longrightarrow> k < length phone_button \<Longrightarrow> button_hit (phone_button ! k) px py
     \<Longrightarrow> (\<And>j. j < length phone_button \<Longrightarrow> j \<noteq> k \<Longrightarrow> \<not> button_hit (phone_button ! j) px py)
     \<Longrightarrow> for_buttons e px py i s = button_body e k s"
proof (induction e px py i s rule: for_buttons.induct)
  case (1 e px py i s)
  have lt: "i < length phone_button" using "1.prems" by simp
  show ?case
  proof (cases "i = k")
    case True
    have "for_buttons e px py (k + 1) s1 = Some s1" for s1
      using "1.prems"(4) by (intro for_buttons_no_hit) simp_all
    then show ?thesis using True "1.prems"(2,3)
      by (simp add: for_buttons.simps[of e px py k s] split: option.splits)
  next
    case False
    then have nh: "\<not> button_hit (phone_button ! i) px py" using "1.prems"(4) lt by simp
    have "for_buttons e px py (i + 1) s = button_body e k s"
      using lt nh False "1.prems" by (intro "1.IH"(2)) simp_all
    then show ?thesis using lt nh by (simp add: for_buttons.simps[of e px py i s])
  qed
qed

lemma for_buttons_inside:
  assumes "i < 15" "strictly_inside (phone_button ! i) px py"
  shows "for_buttons e px py 0 s = button_body e i s"
proof (rule for_buttons_one_hit)
  show "0 \<le> i" by simp
  show "i < length phone_button" using assms by (simp add: length_phone_button)
  show "button_hit (phone_button ! i) px py" using assms by (simp add: button_hit_iff)
  show "\<not> button_hit (phone_button ! j) px py" if "j < length phone_button" "j \<noteq> i" for j
    using that assms squares_disjoint[of j i px py] by (auto simp: length_phone_button button_hit_iff)
qed

lemma for_buttons_cases:
  "for_buttons e px py 0 s = Some s
   \<or> (\<exists>i<15. strictly_inside (phone_button ! i) px py \<and> for_buttons e px py 0 s = button_body e i s)"
proof (cases "\<exists>i<15. strictly_inside (phone_button ! i) px py")
  case True
  then show ?thesis using for_buttons_inside by blast
next
  case False
  then have "for_buttons e px py 0 s = Some s"
    by (intro for_buttons_no_hit) (auto simp: length_phone_button button_hit_iff)
  then show ?thesis by simp
qed

lemma off_grid_x:
  fixes a b p :: int
  shows "19 + 75 * a < p \<Longrightarrow> p < 69 + 75 * a \<Longrightarrow> p \<noteq> 19 + 75 * b \<and> p \<noteq> 69 + 75 * b"
  by (cases "b < a"; cases "b = a"; linarith)

lemma off_grid_y:
  fixes a b p :: int
  shows "44 + 55 * a < p \<Longrightarrow> p < 94 + 55 * a \<Longrightarrow> p \<noteq> 44 + 55 * b \<and> p \<noteq> 94 + 55 * b"
  by (cases "b < a"; cases "b = a"; linarith)

section \<open>The serial relay, the button bodies and one iteration\<close>

lemma text_x_add_eval: "text_x_add = 18"
  by (simp add: text_x_add_def phone_button_def)

lemma text_y_add_eval: "text_y_add = 24"
  by (simp add: text_y_add_def phone_button_def)

lemma relay_Serial_frame:
  assumes "relay_Serial e s = Some s1"
  shows "text_x s1 = text_x s \<and> n s1 = n s \<and> (\<exists>bs. out s1 = out s @ map mySerial_write bs)"
proof (rule relay_Serial.raw_induct
    [where P = "\<lambda>(e::serial_env) (s::phone_state) (s1::phone_state).
        text_x s1 = text_x s \<and> n s1 = n s \<and> (\<exists>bs. out s1 = out s @ map mySerial_write bs)",
      OF _ assms])
  fix f :: "serial_env \<Rightarrow> phone_state \<Rightarrow> phone_state option"
    and e :: serial_env and s s1 :: phone_state
  assume IH: "\<And>e s s1. f e s = Some s1 \<Longrightarrow>
      text_x s1 = text_x s \<and> n s1 = n s \<and> (\<exists>bs. out s1 = out s @ map mySerial_write bs)"
    and body: "(case Serial_rx e (Serial_polls s) of
        None \<Rightarrow> Some (s\<lparr>Serial_polls := Suc (Serial_polls s)\<rparr>)
      | Some b \<Rightarrow> f e (s\<lparr>out := out s @ [mySerial_write b], Serial_polls := Suc (Serial_polls s)\<rparr>)) = Some s1"
  show "text_x s1 = text_x s \<and> n s1 = n s \<and> (\<exists>bs. out s1 = out s @ map mySerial_write bs)"
  proof (cases "Serial_rx e (Serial_polls s)")
    case None
    with body show ?thesis by auto
  next
    case (Some b)
    with body have "f e (s\<lparr>out := out s @ [mySerial_write b], Serial_polls := Suc (Serial_polls s)\<rparr>) = Some s1"
      by simp
    from IH[OF this] obtain bs where "text_x s1 = text_x s" "n s1 = n s"
      "out s1 = out s @ map mySerial_write (b # bs)" by auto
    then show ?thesis by blast
  qed
qed

lemma relay_mySerial_frame:
  assumes "relay_mySerial e s = Some s1"
  shows "text_x s1 = text_x s \<and> n s1 = n s \<and> (\<exists>bs. out s1 = out s @ map Serial_write bs)"
proof (rule relay_mySerial.raw_induct
    [where P = "\<lambda>(e::serial_env) (s::phone_state) (s1::phone_state).
        text_x s1 = text_x s \<and> n s1 = n s \<and> (\<exists>bs. out s1 = out s @ map Serial_write bs)",
      OF _ assms])
  fix f :: "serial_env \<Rightarrow> phone_state \<Rightarrow> phone_state option"
    and e :: serial_env and s s1 :: phone_state
  assume IH: "\<And>e s s1. f e s = Some s1 \<Longrightarrow>
      text_x s1 = text_x s \<and> n s1 = n s \<and> (\<exists>bs. out s1 = out s @ map Serial_write bs)"
    and body: "(case mySerial_rx e (mySerial_polls s) of
        None \<Rightarrow> Some (s\<lparr>mySerial_polls := Suc (mySerial_polls s)\<rparr>)
      | Some b \<Rightarrow> f e (s\<lparr>out := out s @ [Serial_write b], mySerial_polls := Suc (mySerial_polls s)\<rparr>)) = Some s1"
  show "text_x s1 = text_x s \<and> n s1 = n s \<and> (\<exists>bs. out s1 = out s @ map Serial_write bs)"
  proof (cases "mySerial_rx e (mySerial_polls s)")
    case None
    with body show ?thesis by auto
  next
    case (Some b)
    with body have "f e (s\<lparr>out := out s @ [Serial_write b], mySerial_polls := Suc (mySerial_polls s)\<rparr>) = Some s1"
      by simp
    from IH[OF this] obtain bs where "text_x s1 = text_x s" "n s1 = n s"
      "out s1 = out s @ map Serial_write (b # bs)" by auto
    then show ?thesis by blast
  qed
qed

lemma relay_Serial_returns:
  "Serial_rx e (Serial_polls s + k) = None \<Longrightarrow> \<exists>s1. relay_Serial e s = Some s1"
proof (induction k arbitrary: s)
  case 0
  then show ?case by (simp add: relay_Serial.simps[of e s])
next
  case (Suc k)
  show ?case
  proof (cases "Serial_rx e (Serial_polls s)")
    case None
    then show ?thesis by (simp add: relay_Serial.simps[of e s])
  next
    case (Some b)
    have "\<exists>s1. relay_Serial e (s\<lparr>out := out s @ [mySerial_write b], Serial_polls := Suc (Serial_polls s)\<rparr>) = Some s1"
      using Suc.prems by (intro Suc.IH) simp
    with Some show ?thesis by (simp add: relay_Serial.simps[of e s])
  qed
qed

lemma relay_mySerial_returns:
  "mySerial_rx e (mySerial_polls s + k) = None \<Longrightarrow> \<exists>s1. relay_mySerial e s = Some s1"
proof (induction k arbitrary: s)
  case 0
  then show ?case by (simp add: relay_mySerial.simps[of e s])
next
  case (Suc k)
  show ?case
  proof (cases "mySerial_rx e (mySerial_polls s)")
    case None
    then show ?thesis by (simp add: relay_mySerial.simps[of e s])
  next
    case (Some b)
    have "\<exists>s1. relay_mySerial e (s\<lparr>out := out s @ [Serial_write b], mySerial_polls := Suc (mySerial_polls s)\<rparr>) = Some s1"
      using Suc.prems by (intro Suc.IH) simp
    with Some show ?thesis by (simp add: relay_mySerial.simps[of e s])
  qed
qed

lemma updateSerial_frame:
  assumes "updateSerial e s = Some s1"
  shows "text_x s1 = text_x s \<and> n s1 = n s
         \<and> (\<exists>bs cs. out s1 = out s @ [delay 500] @ map mySerial_write bs @ map Serial_write cs)"
proof -
  from assms obtain s0 where a: "relay_Serial e (emit [delay 500] s) = Some s0"
    and b: "relay_mySerial e s0 = Some s1"
    by (auto simp: updateSerial_def split: option.splits)
  from relay_Serial_frame[OF a] obtain bs where
    f0: "text_x s0 = text_x s" "n s0 = n s" "out s0 = out s @ [delay 500] @ map mySerial_write bs"
    by (auto simp: emit_def)
  from relay_mySerial_frame[OF b] obtain cs where
    f1: "text_x s1 = text_x s0" "n s1 = n s0" "out s1 = out s0 @ map Serial_write cs"
    by auto
  show ?thesis
    using f0 f1 by (intro conjI exI[of _ bs] exI[of _ cs]) simp_all
qed

lemma updateSerial_returns:
  assumes "eventually_quiet (Serial_rx e)" "eventually_quiet (mySerial_rx e)"
  shows "\<exists>s1. updateSerial e s = Some s1"
proof -
  from assms(1) obtain j where "Serial_rx e (Serial_polls (emit [delay 500] s) + j) = None"
    unfolding eventually_quiet_def by blast
  from relay_Serial_returns[OF this] obtain s0 where a: "relay_Serial e (emit [delay 500] s) = Some s0"
    by blast
  from assms(2) obtain j where "mySerial_rx e (mySerial_polls s0 + j) = None"
    unfolding eventually_quiet_def by blast
  from relay_mySerial_returns[OF this] obtain s1 where "relay_mySerial e s0 = Some s1" by blast
  with a show ?thesis by (simp add: updateSerial_def)
qed


lemma button_body_digit:
  "i < 12 \<Longrightarrow> n s < 13 \<Longrightarrow>
   button_body e i s =
     Some (s\<lparr>text_x := text_x s + 17, n := n s + 1,
             out := out s @ flash (phone_button ! i)
                    @ show_string (button_name (phone_button ! i)) (text_x s) text_y
                        (button_name_size (phone_button ! i)) GREENYELLOW BLACK True\<rparr>)"
  by (simp add: button_body_def dispatch_def emit_def text_x_add_eval)

lemma button_body_digit_full:
  "i < 12 \<Longrightarrow> \<not> n s < 13 \<Longrightarrow>
   button_body e i s = Some (s\<lparr>out := out s @ flash (phone_button ! i)\<rparr>)"
  by (simp add: button_body_def dispatch_def emit_def)

lemma button_body_end:
  "button_body e 12 s =
     Some (s\<lparr>out := out s @ flash (phone_button ! 12) @ banner ''Calling ended''\<rparr>)"
  by (simp add: button_body_def dispatch_def emit_def)

lemma button_body_delete:
  "0 < n s \<Longrightarrow>
   button_body e 14 s =
     Some (s\<lparr>text_x := text_x s - 17, n := n s - 1,
             out := out s @ flash (phone_button ! 14)
                    @ [Set_Draw_color BLUE, Fill_Rectangle (text_x s - 17) 6 (text_x s) 28]\<rparr>)"
  by (simp add: button_body_def dispatch_def emit_def text_x_add_eval text_y_add_eval text_y_def)

lemma button_body_delete_empty:
  "n s = 0 \<Longrightarrow> button_body e 14 s = Some (s\<lparr>out := out s @ flash (phone_button ! 14)\<rparr>)"
  by (simp add: button_body_def dispatch_def emit_def)

lemma button_body_call_frame:
  assumes "button_body e 13 s = Some s1"
  shows "text_x s1 = text_x s \<and> n s1 = n s
     \<and> (\<exists>bs1 cs1 bs2 cs2. out s1 =
           out s @ flash (phone_button ! 13) @ banner ''Calling...''
           @ [mySerial_println ''ATD+916374354166;'', delay 500]
           @ map mySerial_write bs1 @ map Serial_write cs1
           @ [delay 20000, mySerial_println ''ATH'', delay 500]
           @ map mySerial_write bs2 @ map Serial_write cs2)"
proof -
  let ?s0 = "emit (banner ''Calling...'' @ [mySerial_println ''ATD+916374354166;''])
               (emit (flash (phone_button ! 13)) s)"
  from assms obtain s2 where a: "updateSerial e ?s0 = Some s2"
    and b: "updateSerial e (emit [delay 20000, mySerial_println ''ATH''] s2) = Some s1"
    by (auto simp: button_body_def dispatch_def split: option.splits)
  from updateSerial_frame[OF a] obtain bs1 cs1 where
    f0: "text_x s2 = text_x s" "n s2 = n s"
      "out s2 = out ?s0 @ [delay 500] @ map mySerial_write bs1 @ map Serial_write cs1"
    by (auto simp: emit_def)
  from updateSerial_frame[OF b] obtain bs2 cs2 where
    f1: "text_x s1 = text_x s2" "n s1 = n s2"
      "out s1 = out s2 @ [delay 20000, mySerial_println ''ATH''] @ [delay 500]
                @ map mySerial_write bs2 @ map Serial_write cs2"
    by (auto simp: emit_def)
  show ?thesis
    using f0 f1
    by (intro conjI exI[of _ bs1] exI[of _ cs1] exI[of _ bs2] exI[of _ cs2]) (simp_all add: emit_def)
qed

lemma button_body_call_returns:
  assumes "eventually_quiet (Serial_rx e)" "eventually_quiet (mySerial_rx e)"
  shows "\<exists>s1. button_body e 13 s = Some s1"
proof -
  let ?s0 = "emit (banner ''Calling...'' @ [mySerial_println ''ATD+916374354166;''])
               (emit (flash (phone_button ! 13)) s)"
  from updateSerial_returns[OF assms] obtain s2 where a: "updateSerial e ?s0 = Some s2" by blast
  from updateSerial_returns[OF assms] obtain s1
    where "updateSerial e (emit [delay 20000, mySerial_println ''ATH''] s2) = Some s1" by blast
  with a show ?thesis by (simp add: button_body_def dispatch_def)
qed

lemma loop_press:
  assumes "i < 15" "presses i p"
  shows "loop e p s = button_body e i (emit sample_touch s)"
  using assms for_buttons_inside[of i "map_x (x p)" "map_y (y p)" e "emit sample_touch s"]
  by (simp add: loop_def presses_def MINPRESSURE_def MAXPRESSURE_def word_sless_alt)

lemma button_body_step:
  assumes "i < 15" "button_body e i s = Some s1"
  shows "(text_x s1 = text_x s \<and> n s1 = n s)
       \<or> (n s < 13 \<and> text_x s1 = text_x s + 17 \<and> n s1 = n s + 1)
       \<or> (0 < n s \<and> text_x s1 = text_x s - 17 \<and> n s1 = n s - 1)"
proof -
  consider "i < 12" | "i = 12" | "i = 13" | "i = 14" using assms(1) by linarith
  then show ?thesis
  proof cases
    case 1
    then show ?thesis using assms(2) button_body_digit[of i s e] button_body_digit_full[of i s e]
      by (cases "n s < 13") auto
  next
    case 2
    then show ?thesis using assms(2) by (auto simp: button_body_end)
  next
    case 3
    then show ?thesis using assms(2) button_body_call_frame[of e s s1] by simp
  next
    case 4
    then show ?thesis using assms(2) button_body_delete[of s e] button_body_delete_empty[of s e]
      by (cases "n s = 0") (auto simp: word_greater_zero_iff)
  qed
qed

lemma loop_step:
  assumes "loop e p s = Some s1"
  shows "(text_x s1 = text_x s \<and> n s1 = n s)
       \<or> (n s < 13 \<and> text_x s1 = text_x s + 17 \<and> n s1 = n s + 1)
       \<or> (0 < n s \<and> text_x s1 = text_x s - 17 \<and> n s1 = n s - 1)"
proof (cases "MINPRESSURE <s z p \<and> z p <s MAXPRESSURE")
  case False
  with assms show ?thesis by (auto simp: loop_def emit_def)
next
  case True
  let ?s0 = "emit sample_touch s"
  from True assms have fb: "for_buttons e (map_x (x p)) (map_y (y p)) 0 ?s0 = Some s1"
    by (simp add: loop_def)
  from for_buttons_cases[of e "map_x (x p)" "map_y (y p)" ?s0] fb
  consider "s1 = ?s0" | i where "i < 15" "button_body e i ?s0 = Some s1" by auto
  then show ?thesis
  proof cases
    case 1
    then show ?thesis by (simp add: emit_def)
  next
    case 2
    from button_body_step[OF 2] show ?thesis by (simp add: emit_def)
  qed
qed


lemma advance_eval: "unat (text_x_add - 1) = 17"
  by (simp add: text_x_add_eval)

lemma cursor_inv_init: "cursor_inv init_state"
  by (simp add: cursor_inv_def init_state_def)

lemma cursor_inv_append:
  assumes "cursor_inv s" "n s < 13" "text_x s1 = text_x s + 17" "n s1 = n s + 1"
  shows "cursor_inv s1 \<and> unat (n s1) = unat (n s) + 1"
proof -
  have a: "unat (n s) < 13" using assms(2) by (simp add: word_less_nat_alt)
  have b: "unat (text_x s) = 10 + unat (n s) * 17" using assms(1) by (simp add: cursor_inv_def advance_eval)
  have "unat (n s + 1) = unat (n s) + 1" using a by (simp add: unat_word_ariths)
  moreover have "unat (text_x s + 17) = unat (text_x s) + 17" using a b by (simp add: unat_word_ariths)
  ultimately show ?thesis using a b assms(3,4) by (simp add: cursor_inv_def advance_eval)
qed

lemma cursor_inv_delete:
  assumes "cursor_inv s" "0 < n s" "text_x s1 = text_x s - 17" "n s1 = n s - 1"
  shows "cursor_inv s1 \<and> unat (n s1) = unat (n s) - 1"
proof -
  have a: "0 < unat (n s)" "unat (n s) \<le> 13" using assms(1,2) by (simp_all add: word_less_nat_alt cursor_inv_def)
  have b: "unat (text_x s) = 10 + unat (n s) * 17" using assms(1) by (simp add: cursor_inv_def advance_eval)
  have "unat (n s - 1) = unat (n s) - 1" using a by (simp add: unat_minus_one unat_gt_0)
  then have c: "unat (n s1) = unat (n s) - 1" by (simp add: assms(4))
  have "unat (text_x s - 17) = unat (text_x s) - 17" using a b
    by (subst unat_sub) (simp_all add: word_le_nat_alt)
  then have d: "unat (text_x s1) = unat (text_x s) - 17" by (simp add: assms(3))
  show ?thesis unfolding cursor_inv_def advance_eval using a b c d by arith
qed

section \<open>Concrete samples, traces and runs\<close>

lemmas map_defs = map_x_def map_y_def map_long_def long_div_def TS_MINX_def TS_MAXX_def
  TS_MINY_def TS_MAXY_def signed_divide_int_def

lemma presses_touch_5: "presses 4 touch_5"
  by (simp add: presses_def touch_5_def strictly_inside_def map_defs phone_button_def ui_defs)

lemma presses_touch_end: "presses 12 touch_end"
  by (simp add: presses_def touch_end_def strictly_inside_def map_defs phone_button_def ui_defs)

lemma presses_touch_call: "presses 13 touch_call"
  by (simp add: presses_def touch_call_def strictly_inside_def map_defs phone_button_def ui_defs)

lemma presses_touch_dele: "presses 14 touch_dele"
  by (simp add: presses_def touch_dele_def strictly_inside_def map_defs phone_button_def ui_defs)

lemma quiet_env_quiet:
  "eventually_quiet (Serial_rx quiet_env)" "eventually_quiet (mySerial_rx quiet_env)"
  by (simp_all add: eventually_quiet_def quiet_env_def)

lemma answering_env_quiet:
  "eventually_quiet (Serial_rx answering_env)" "eventually_quiet (mySerial_rx answering_env)"
proof -
  show "eventually_quiet (Serial_rx answering_env)"
    by (simp add: eventually_quiet_def answering_env_def)
  have "\<exists>j. mySerial_rx answering_env (k + j) = None" for k
    by (rule exI[of _ 2]) (simp add: answering_env_def)
  then show "eventually_quiet (mySerial_rx answering_env)"
    by (simp add: eventually_quiet_def)
qed

lemma modem_commands_append [simp]:
  "modem_commands (tr @ tr') = modem_commands tr @ modem_commands tr'"
  by (simp add: modem_commands_def)

lemma modem_commands_Cons [simp]:
  "modem_commands (ev # tr) = println_of ev @ modem_commands tr"
  by (simp add: modem_commands_def)

lemma modem_commands_Nil [simp]: "modem_commands [] = []"
  by (simp add: modem_commands_def)

lemma modem_commands_relayed [simp]:
  "modem_commands (map mySerial_write bs) = []" "modem_commands (map Serial_write bs) = []"
  by (induction bs) simp_all

lemma modem_commands_display [simp]:
  "modem_commands sample_touch = []" "modem_commands (flash b) = []"
  "modem_commands (banner str) = []"
  by (simp_all add: sample_touch_def flash_def banner_def show_string_def)

lemma no_modem_display:
  "ev \<in> set (sample_touch @ flash b @ banner str) \<Longrightarrow> \<not> to_modem ev"
  by (auto simp: sample_touch_def flash_def banner_def show_string_def)

lemma banner_eval:
  "banner str = [Set_Draw_color BLUE, Fill_Rectangle 0 33 239 42, Set_Text_Mode True,
     Set_Text_Size 1, Set_Text_colour OLIVE, Set_Text_Back_colour BLACK,
     Print_String str CENTER 33]"
  by (simp add: banner_def show_string_def Get_Display_Width_def)

lemma dial_literal_matches: "matches_dial_pattern ''ATD+916374354166;''"
  by (simp add: matches_dial_pattern_def is_digit_def)

lemma run_append:
  "run e s (ps @ qs) = (case run e s ps of None \<Rightarrow> None | Some s1 \<Rightarrow> run e s1 qs)"
  by (induction ps arbitrary: s) (simp_all split: option.splits)

lemma cursor_inv_same:
  "text_x s1 = text_x s \<Longrightarrow> n s1 = n s \<Longrightarrow> cursor_inv s1 = cursor_inv s"
  by (simp add: cursor_inv_def)

lemma loop_inv:
  assumes "loop e p s = Some s1" "cursor_inv s"
  shows "cursor_inv s1"
  using loop_step[OF assms(1)] assms(2) cursor_inv_same[of s1 s]
    cursor_inv_append[of s s1] cursor_inv_delete[of s s1]
  by blast

lemma run_inv:
  "run e s ps = Some s1 \<Longrightarrow> cursor_inv s \<Longrightarrow> cursor_inv s1"
proof (induction ps arbitrary: s)
  case Nil
  then show ?case by simp
next
  case (Cons p ps)
  from Cons.prems(1) obtain s0 where a: "loop e p s = Some s0" and b: "run e s0 ps = Some s1"
    by (auto split: option.splits)
  from loop_inv[OF a Cons.prems(2)] Cons.IH[OF b] show ?case by simp
qed

lemma loop_digit:
  assumes "i < 12" "presses i p" "cursor_inv s"
  shows "\<exists>s1. loop e p s = Some s1 \<and> cursor_inv s1 \<and> unat (n s1) = min (unat (n s) + 1) 13"
proof (cases "n s < 13")
  case True
  let ?s0 = "emit sample_touch s"
  let ?s1 = "?s0\<lparr>text_x := text_x ?s0 + 17, n := n ?s0 + 1,
             out := out ?s0 @ flash (phone_button ! i)
                    @ show_string (button_name (phone_button ! i)) (text_x ?s0) text_y
                        (button_name_size (phone_button ! i)) GREENYELLOW BLACK True\<rparr>"
  have "loop e p s = Some ?s1"
    using loop_press[of i p e s] assms(1,2) True button_body_digit[of i ?s0 e]
    by (simp add: emit_def)
  moreover have "cursor_inv ?s1 \<and> unat (n ?s1) = unat (n s) + 1"
    using cursor_inv_append[of s ?s1] assms(3) True by (simp add: emit_def)
  moreover have "unat (n s) < 13" using True by (simp add: word_less_nat_alt)
  ultimately show ?thesis by (intro exI[of _ ?s1]) simp
next
  case False
  let ?s1 = "s\<lparr>out := out s @ sample_touch @ flash (phone_button ! i)\<rparr>"
  have "loop e p s = Some ?s1"
    using loop_press[of i p e s] assms(1,2) False button_body_digit_full[of i "emit sample_touch s" e]
    by (simp add: emit_def)
  moreover have "cursor_inv ?s1" using assms(3) cursor_inv_same[of ?s1 s] by simp
  moreover have "unat (n s) = 13" using False assms(3) by (simp add: word_less_nat_alt cursor_inv_def)
  ultimately show ?thesis by (intro exI[of _ ?s1]) simp
qed

lemma loop_delete:
  assumes "presses 14 p" "cursor_inv s"
  shows "\<exists>s1. loop e p s = Some s1 \<and> cursor_inv s1 \<and> unat (n s1) = unat (n s) - 1"
proof (cases "0 < n s")
  case True
  let ?s0 = "emit sample_touch s"
  let ?s1 = "?s0\<lparr>text_x := text_x ?s0 - 17, n := n ?s0 - 1,
             out := out ?s0 @ flash (phone_button ! 14)
                    @ [Set_Draw_color BLUE, Fill_Rectangle (text_x ?s0 - 17) 6 (text_x ?s0) 28]\<rparr>"
  have "loop e p s = Some ?s1"
    using loop_press[of 14 p e s] assms(1) True button_body_delete[of ?s0 e]
    by (simp add: emit_def)
  moreover have "cursor_inv ?s1 \<and> unat (n ?s1) = unat (n s) - 1"
    using cursor_inv_delete[of s ?s1] assms(2) True by (simp add: emit_def)
  ultimately show ?thesis by (intro exI[of _ ?s1]) simp
next
  case False
  then have z0: "n s = 0" by (simp add: word_greater_zero_iff)
  let ?s1 = "s\<lparr>out := out s @ sample_touch @ flash (phone_button ! 14)\<rparr>"
  have "loop e p s = Some ?s1"
    using loop_press[of 14 p e s] assms(1) z0 button_body_delete_empty[of "emit sample_touch s" e]
    by (simp add: emit_def)
  moreover have "cursor_inv ?s1" using assms(2) cursor_inv_same[of ?s1 s] by simp
  ultimately show ?thesis using z0 by (intro exI[of _ ?s1]) simp
qed

lemma run_digits:
  "\<forall>p\<in>set ps. \<exists>i<12. presses i p \<Longrightarrow> cursor_inv s \<Longrightarrow>
     \<exists>s1. run e s ps = Some s1 \<and> cursor_inv s1 \<and> unat (n s1) = min (unat (n s) + length ps) 13"
proof (induction ps arbitrary: s)
  case Nil
  then show ?case by (simp add: cursor_inv_def)
next
  case (Cons p ps)
  from Cons.prems(1) obtain i where "i < 12" "presses i p" by auto
  from loop_digit[OF this Cons.prems(2), of e] obtain s0 where
    a: "loop e p s = Some s0" "cursor_inv s0" "unat (n s0) = min (unat (n s) + 1) 13" by blast
  from Cons.IH[OF _ a(2)] Cons.prems(1) obtain s1 where
    b: "run e s0 ps = Some s1" "cursor_inv s1" "unat (n s1) = min (unat (n s0) + length ps) 13"
    by auto
  show ?case using a b by (intro exI[of _ s1]) auto
qed

lemma run_deletes:
  "\<forall>p\<in>set ps. presses 14 p \<Longrightarrow> cursor_inv s \<Longrightarrow>
     \<exists>s1. run e s ps = Some s1 \<and> cursor_inv s1 \<and> unat (n s1) = unat (n s) - length ps"
proof (induction ps arbitrary: s)
  case Nil
  then show ?case by simp
next
  case (Cons p ps)
  from Cons.prems(1) have "presses 14 p" by simp
  from loop_delete[OF this Cons.prems(2), of e] obtain s0 where
    a: "loop e p s = Some s0" "cursor_inv s0" "unat (n s0) = unat (n s) - 1" by blast
  from Cons.IH[OF _ a(2)] Cons.prems(1) obtain s1 where
    b: "run e s0 ps = Some s1" "cursor_inv s1" "unat (n s1) = unat (n s0) - length ps"
    by auto
  show ?case using a b by (intro exI[of _ s1]) auto
qed

lemma digit_presses_touch_5: "\<forall>p\<in>set (replicate k touch_5). \<exists>i<12. presses i p"
  using presses_touch_5 by (auto intro: exI[of _ 4])

lemma delete_presses_touch_dele: "\<forall>p\<in>set (replicate k touch_dele). presses 14 p"
  using presses_touch_dele by auto

lemma first_hit_index:
  assumes "i < m" "P i" "\<And>j. j < m \<Longrightarrow> P j \<Longrightarrow> j = i"
  shows "find P [0..<m] = Some i"
proof -
  have nth: "[0..<m] ! j = j" if "j < m" for j using that by simp
  have a: "i < length [0..<m]" using assms(1) by simp
  have b: "P ([0..<m] ! i)" using assms(1,2) by (simp only: nth)
  have c: "\<not> P ([0..<m] ! j)" if "j < i" for j
  proof
    assume "P ([0..<m] ! j)"
    moreover have "j < m" using that assms(1) by simp
    ultimately have "j = i" using assms(3)[of j] by (simp only: nth)
    with that show False by simp
  qed
  have "\<exists>k<length [0..<m]. P ([0..<m] ! k) \<and> i = [0..<m] ! k \<and> (\<forall>j<k. \<not> P ([0..<m] ! j))"
    using a b c nth[OF assms(1)] by (intro exI[of _ i]) (simp only: simp_thms; blast)
  then show ?thesis by (simp only: find_Some_iff)
qed

section \<open>The call branch, relay by relay\<close>

lemma dispatch_call:
  "dispatch e 13 s =
     (case updateSerial e (call_dial s) of None \<Rightarrow> None | Some s1 \<Rightarrow> updateSerial e (call_hang_up s1))"
  unfolding dispatch_def call_dial_def call_hang_up_def by simp

lemma polled_step:
  assumes "rx k = Some b"
  shows "polled rx k (Suc j) = b # polled rx (Suc k) j"
proof -
  have "[k..<k + Suc j] = k # [Suc k..<Suc k + j]" by (simp add: upt_conv_Cons)
  then show ?thesis using assms by (simp add: polled_def)
qed

lemma first_empty_step:
  "first_empty rx k (Suc j) \<Longrightarrow> first_empty rx (Suc k) j"
  by (auto simp: first_empty_def)

lemma relay_Serial_exact:
  "first_empty (Serial_rx e) (Serial_polls s) j \<Longrightarrow>
   relay_Serial e s =
     Some (s\<lparr>out := out s @ map mySerial_write (polled (Serial_rx e) (Serial_polls s) j),
             Serial_polls := Serial_polls s + j + 1\<rparr>)"
proof (induction j arbitrary: s)
  case 0
  then show ?case by (simp add: relay_Serial.simps[of e s] first_empty_def polled_def)
next
  case (Suc j)
  from Suc.prems obtain b where b: "Serial_rx e (Serial_polls s) = Some b"
    by (auto simp: first_empty_def dest: spec[of _ 0])
  let ?s = "s\<lparr>out := out s @ [mySerial_write b], Serial_polls := Suc (Serial_polls s)\<rparr>"
  have "first_empty (Serial_rx e) (Serial_polls ?s) j"
    using first_empty_step[OF Suc.prems] by simp
  from Suc.IH[OF this] show ?case
    using b by (simp add: relay_Serial.simps[of e s] polled_step)
qed

lemma relay_mySerial_exact:
  "first_empty (mySerial_rx e) (mySerial_polls s) j \<Longrightarrow>
   relay_mySerial e s =
     Some (s\<lparr>out := out s @ map Serial_write (polled (mySerial_rx e) (mySerial_polls s) j),
             mySerial_polls := mySerial_polls s + j + 1\<rparr>)"
proof (induction j arbitrary: s)
  case 0
  then show ?case by (simp add: relay_mySerial.simps[of e s] first_empty_def polled_def)
next
  case (Suc j)
  from Suc.prems obtain b where b: "mySerial_rx e (mySerial_polls s) = Some b"
    by (auto simp: first_empty_def dest: spec[of _ 0])
  let ?s = "s\<lparr>out := out s @ [Serial_write b], mySerial_polls := Suc (mySerial_polls s)\<rparr>"
  have "first_empty (mySerial_rx e) (mySerial_polls ?s) j"
    using first_empty_step[OF Suc.prems] by simp
  from Suc.IH[OF this] show ?case
    using b by (simp add: relay_mySerial.simps[of e s] polled_step)
qed

lemma relay_Serial_never_empty:
  assumes "\<forall>j. Serial_rx e (Serial_polls s + j) \<noteq> None"
  shows "relay_Serial e s = None"
proof (rule ccontr)
  assume "relay_Serial e s \<noteq> None"
  then obtain s1 where ret: "relay_Serial e s = Some s1" by auto
  have "\<exists>j. Serial_rx e (Serial_polls s + j) = None"
  proof (rule relay_Serial.raw_induct
      [where P = "\<lambda>(e::serial_env) (s::phone_state) (s1::phone_state).
          \<exists>j. Serial_rx e (Serial_polls s + j) = None", OF _ ret])
    fix f :: "serial_env \<Rightarrow> phone_state \<Rightarrow> phone_state option"
      and e :: serial_env and s s1 :: phone_state
    assume IH: "\<And>e s s1. f e s = Some s1 \<Longrightarrow> \<exists>j. Serial_rx e (Serial_polls s + j) = None"
      and body: "(case Serial_rx e (Serial_polls s) of
          None \<Rightarrow> Some (s\<lparr>Serial_polls := Suc (Serial_polls s)\<rparr>)
        | Some b \<Rightarrow> f e (s\<lparr>out := out s @ [mySerial_write b], Serial_polls := Suc (Serial_polls s)\<rparr>)) = Some s1"
    show "\<exists>j. Serial_rx e (Serial_polls s + j) = None"
    proof (cases "Serial_rx e (Serial_polls s)")
      case None
      then show ?thesis by (intro exI[of _ 0]) simp
    next
      case (Some b)
      with body have "f e (s\<lparr>out := out s @ [mySerial_write b], Serial_polls := Suc (Serial_polls s)\<rparr>) = Some s1"
        by simp
      from IH[OF this] obtain j where "Serial_rx e (Serial_polls s + Suc j) = None" by auto
      then show ?thesis by blast
    qed
  qed
  with assms show False by blast
qed

lemma relay_mySerial_never_empty:
  assumes "\<forall>j. mySerial_rx e (mySerial_polls s + j) \<noteq> None"
  shows "relay_mySerial e s = None"
proof (rule ccontr)
  assume "relay_mySerial e s \<noteq> None"
  then obtain s1 where ret: "relay_mySerial e s = Some s1" by auto
  have "\<exists>j. mySerial_rx e (mySerial_polls s + j) = None"
  proof (rule relay_mySerial.raw_induct
      [where P = "\<lambda>(e::serial_env) (s::phone_state) (s1::phone_state).
          \<exists>j. mySerial_rx e (mySerial_polls s + j) = None", OF _ ret])
    fix f :: "serial_env \<Rightarrow> phone_state \<Rightarrow> phone_state option"
      and e :: serial_env and s s1 :: phone_state
    assume IH: "\<And>e s s1. f e s = Some s1 \<Longrightarrow> \<exists>j. mySerial_rx e (mySerial_polls s + j) = None"
      and body: "(case mySerial_rx e (mySerial_polls s) of
          None \<Rightarrow> Some (s\<lparr>mySerial_polls := Suc (mySerial_polls s)\<rparr>)
        | Some b \<Rightarrow> f e (s\<lparr>out := out s @ [Serial_write b], mySerial_polls := Suc (mySerial_polls s)\<rparr>)) = Some s1"
    show "\<exists>j. mySerial_rx e (mySerial_polls s + j) = None"
    proof (cases "mySerial_rx e (mySerial_polls s)")
      case None
      then show ?thesis by (intro exI[of _ 0]) simp
    next
      case (Some b)
      with body have "f e (s\<lparr>out := out s @ [Serial_write b], mySerial_polls := Suc (mySerial_polls s)\<rparr>) = Some s1"
        by simp
      from IH[OF this] obtain j where "mySerial_rx e (mySerial_polls s + Suc j) = None" by auto
      then show ?thesis by blast
    qed
  qed
  with assms show False by blast
qed

lemma first_empty_exists:
  assumes "rx (k + j) = None"
  shows "\<exists>i. first_empty rx k i"
proof -
  define m where "m = (LEAST i. rx (k + i) = None)"
  have "rx (k + m) = None" unfolding m_def using assms by (rule LeastI)
  moreover have "rx (k + i) \<noteq> None" if "i < m" for i
    using that not_less_Least unfolding m_def by blast
  ultimately show ?thesis unfolding first_empty_def by blast
qed

lemma updateSerial_exact:
  assumes "first_empty (Serial_rx e) (Serial_polls s) j1"
    and "first_empty (mySerial_rx e) (mySerial_polls s) j2"
  shows "updateSerial e s =
     Some (s\<lparr>out := out s @ [delay 500]
                  @ map mySerial_write (polled (Serial_rx e) (Serial_polls s) j1)
                  @ map Serial_write (polled (mySerial_rx e) (mySerial_polls s) j2),
             Serial_polls := Serial_polls s + j1 + 1,
             mySerial_polls := mySerial_polls s + j2 + 1\<rparr>)"
proof -
  let ?s0 = "emit [delay 500] s"
  let ?s1 = "?s0\<lparr>out := out ?s0 @ map mySerial_write (polled (Serial_rx e) (Serial_polls ?s0) j1),
             Serial_polls := Serial_polls ?s0 + j1 + 1\<rparr>"
  have a: "relay_Serial e ?s0 = Some ?s1"
    using assms(1) by (intro relay_Serial_exact) (simp add: emit_def)
  have "first_empty (mySerial_rx e) (mySerial_polls ?s1) j2"
    using assms(2) by (simp add: emit_def)
  from relay_mySerial_exact[OF this] a show ?thesis
    by (simp add: updateSerial_def emit_def)
qed

lemma updateSerial_never_empty:
  assumes "(\<forall>j. Serial_rx e (Serial_polls s + j) \<noteq> None)
           \<or> (\<forall>j. mySerial_rx e (mySerial_polls s + j) \<noteq> None)"
  shows "updateSerial e s = None"
proof (cases "\<forall>j. Serial_rx e (Serial_polls s + j) \<noteq> None")
  case True
  then have "relay_Serial e (emit [delay 500] s) = None"
    by (intro relay_Serial_never_empty) (simp add: emit_def)
  then show ?thesis by (simp add: updateSerial_def)
next
  case False
  then have my: "\<forall>j. mySerial_rx e (mySerial_polls s + j) \<noteq> None" using assms by blast
  from False obtain j where "Serial_rx e (Serial_polls s + j) = None" by blast
  from first_empty_exists[of "Serial_rx e" "Serial_polls s" j, OF this] obtain i where
    "first_empty (Serial_rx e) (Serial_polls (emit [delay 500] s)) i" by (auto simp: emit_def)
  from relay_Serial_exact[OF this] obtain s1 where
    a: "relay_Serial e (emit [delay 500] s) = Some s1" and "mySerial_polls s1 = mySerial_polls s"
    by (simp add: emit_def)
  then have "relay_mySerial e s1 = None"
    using my by (intro relay_mySerial_never_empty) simp
  with a show ?thesis by (simp add: updateSerial_def)
qed

lemma filter_to_modem_display:
  "filter to_modem sample_touch = []" "filter to_modem (flash b) = []"
  "filter to_modem (banner str) = []"
  by (simp_all add: sample_touch_def flash_def banner_def show_string_def)

lemma filter_to_modem_relayed:
  "filter to_modem (map mySerial_write bs) = map mySerial_write bs"
  "filter to_modem (map Serial_write bs) = []"
  by (induction bs) simp_all

lemma loop_call:
  assumes "presses 13 p"
  shows "loop e p s =
     (case updateSerial e (call_dial (emit (sample_touch @ flash (phone_button ! 13)) s)) of
        None \<Rightarrow> None
      | Some s1 \<Rightarrow> updateSerial e (call_hang_up s1))"
  using loop_press[of 13 p e s] assms
  by (simp add: button_body_def dispatch_call emit_def)

lemma out_call_dial:
  "out (call_dial (emit (sample_touch @ flash b) s)) =
     out s @ sample_touch @ flash b
     @ [Set_Draw_color BLUE, Fill_Rectangle 0 33 239 42, Set_Text_Mode True,
        Set_Text_Size 1, Set_Text_colour OLIVE, Set_Text_Back_colour BLACK,
        Print_String ''Calling...'' CENTER 33]
     @ [mySerial_println ''ATD+916374354166;'']"
  by (simp add: call_dial_def emit_def banner_eval)

lemma polls_call_dial:
  "Serial_polls (call_dial (emit evs s)) = Serial_polls s"
  "mySerial_polls (call_dial (emit evs s)) = mySerial_polls s"
  by (simp_all add: call_dial_def emit_def)

lemma flooding_never_empty: "\<forall>j. Serial_rx flooding_env (k + j) \<noteq> None"
  by (simp add: flooding_env_def)

lemma length_typed_line: "length typed_line = 9"
  by (simp add: typed_line_def)

lemma first_empty_typing:
  "first_empty (Serial_rx typing_env) 0 9" "first_empty (Serial_rx typing_env) 10 0"
  "first_empty (mySerial_rx typing_env) k 0"
  by (simp_all add: first_empty_def typing_env_def length_typed_line)

lemma polled_typing:
  "polled (Serial_rx typing_env) 0 9 = map of_char typed_line"
  "polled rx k 0 = []"
proof -
  have "map (\<lambda>i. the (Serial_rx typing_env i)) [0..<length typed_line] = map of_char typed_line"
    by (rule nth_equalityI) (simp_all add: typing_env_def)
  then show "polled (Serial_rx typing_env) 0 9 = map of_char typed_line"
    by (simp add: polled_def length_typed_line)
  show "polled rx k 0 = []" by (simp add: polled_def)
qed

lemma run_digits_deletes:
  assumes "\<forall>p\<in>set ds. \<exists>i<12. presses i p" and "\<forall>p\<in>set dels. presses 14 p"
  shows "\<exists>s2. run e init_state (ds @ dels) = Some s2 \<and> cursor_inv s2
              \<and> unat (n s2) = min (length ds) 13 - length dels"
proof -
  from run_digits[OF assms(1) cursor_inv_init, of e] obtain s0 where
    d: "run e init_state ds = Some s0" "cursor_inv s0" "unat (n s0) = min (length ds) 13"
    by (auto simp: init_state_def)
  from run_deletes[OF assms(2) d(2), of e] obtain s2 where
    "run e s0 dels = Some s2" "cursor_inv s2" "unat (n s2) = unat (n s0) - length dels"
    by blast
  then show ?thesis using d by (intro exI[of _ s2]) (simp add: run_append)
qed

lemma dial_line_digits_deletes:
  "dial_line (run quiet_env init_state (replicate a touch_5 @ replicate b touch_dele))
     = Some (min a 13 - b, 10 + (min a 13 - b) * 17)"
proof -
  from run_digits_deletes[OF digit_presses_touch_5[of a] delete_presses_touch_dele[of b], of quiet_env]
  obtain s2 where "run quiet_env init_state (replicate a touch_5 @ replicate b touch_dele) = Some s2"
    "cursor_inv s2" "unat (n s2) = min a 13 - b"
    by auto
  then show ?thesis by (simp add: dial_line_def cursor_inv_def advance_eval)
qed

section \<open>Properties\<close>

text \<open>
  C1. A sample whose pressure is at most \<open>MINPRESSURE = 10\<close> or at least
  \<open>MAXPRESSURE = 1000\<close> is ignored: the iteration ends with the state it started from,
  extended only by the five events of taking the sample. No button is looked up, so none
  of the events is a display or modem command, and the cursor and count are unchanged.
\<close>

theorem loop_ignores_out_of_range_pressure:
  "sint (z p) \<le> 10 \<or> 1000 \<le> sint (z p) \<Longrightarrow>
     loop e p s = Some (s\<lparr>out := out s @ sample_touch\<rparr>)
     \<and> sample_touch = [digitalWrite (Pin 13) HIGH, ts_getPoint, digitalWrite (Pin 13) LOW,
                        pinMode (APin 2) OUTPUT, pinMode (APin 1) OUTPUT]"
  by (auto simp: loop_def emit_def sample_touch_def XM_def YP_def MINPRESSURE_def MAXPRESSURE_def
        word_sless_alt)

theorem loop_ignores_out_of_range_pressure_witness:
  "1000 \<le> sint (z \<lparr>x = 548, y = 195, z = 1000\<rparr>)
   \<and> loop quiet_env \<lparr>x = 548, y = 195, z = 1000\<rparr> init_state = Some (init_state\<lparr>out := sample_touch\<rparr>)"
  using loop_ignores_out_of_range_pressure [of "\<lparr>x = 548, y = 195, z = 1000\<rparr>" quiet_env init_state]
  by (simp add: init_state_def)

text \<open>
  C2. A mapped point strictly inside the bounding square of button \<open>i\<close> selects that
  button and no other: the whole loop over the table does exactly what one execution of
  the body for button \<open>i\<close> does, and \<open>i\<close> is the only index whose hit test succeeds.
  The loop has no \<^verbatim>\<open>break\<close>; the squares of the table are pairwise disjoint, so the
  first match in layout order (\<open>find\<close> over the indices) is the only one.
\<close>

theorem inside_square_selects_that_button:
  assumes "i < length phone_button" and "strictly_inside (phone_button ! i) px py"
  shows "for_buttons e px py 0 s = button_body e i s
         \<and> (\<forall>j<length phone_button. button_hit (phone_button ! j) px py \<longleftrightarrow> j = i)
         \<and> find (\<lambda>j. button_hit (phone_button ! j) px py) [0..<length phone_button] = Some i"
proof -
  have i: "i < 15" using assms(1) by (simp add: length_phone_button)
  have only: "button_hit (phone_button ! j) px py \<longleftrightarrow> j = i" if "j < length phone_button" for j
    using that i assms(2) squares_disjoint[of j i px py]
    by (auto simp: length_phone_button button_hit_iff)
  have "find (\<lambda>j. button_hit (phone_button ! j) px py) [0..<length phone_button] = Some i"
    using assms(1) only by (intro first_hit_index) simp_all
  then show ?thesis using only for_buttons_inside[OF i assms(2)] by simp
qed

theorem inside_square_selects_that_button_witness:
  "4 < length phone_button \<and> strictly_inside (phone_button ! 4) 119 124
   \<and> for_buttons quiet_env 119 124 0 init_state = button_body quiet_env 4 init_state
   \<and> \<not> button_hit (phone_button ! 3) 119 124"
proof -
  have a: "4 < length phone_button" by (simp add: length_phone_button)
  have b: "strictly_inside (phone_button ! 4) 119 124"
    by (simp add: strictly_inside_def phone_button_def ui_defs)
  show ?thesis
    using a b inside_square_selects_that_button[OF a b, of quiet_env init_state]
    by (simp add: length_phone_button)
qed

text \<open>
  C3. A mapped point on one of the four edge lines of the bounding square of a button
  does not select that button: all four comparisons of the hit test are strict. On this
  table such a point selects no button at all.
\<close>

theorem boundary_point_selects_nothing:
  assumes "i < length phone_button" and "on_boundary (phone_button ! i) px py"
  shows "\<not> button_hit (phone_button ! i) px py \<and> for_buttons e px py 0 s = Some s"
proof -
  have i: "i < 15" using assms(1) by (simp add: length_phone_button)
  have edge: "sint px = 19 + 75 * int (i mod 3) \<or> sint px = 69 + 75 * int (i mod 3)
      \<or> sint py = 44 + 55 * int (i div 3) \<or> sint py = 94 + 55 * int (i div 3)"
    using assms(2) by (simp add: on_boundary_def uint_centres[OF i] BUTTON_R_def)
  have "\<not> strictly_inside (phone_button ! j) px py" if j: "j < 15" for j
  proof
    assume "strictly_inside (phone_button ! j) px py"
    then have "19 + 75 * int (j mod 3) < sint px" "sint px < 69 + 75 * int (j mod 3)"
      "44 + 55 * int (j div 3) < sint py" "sint py < 94 + 55 * int (j div 3)"
      by (simp_all add: strictly_inside_def uint_centres[OF j] BUTTON_R_def)
    then show False
      using edge off_grid_x[of "int (j mod 3)" "sint px" "int (i mod 3)"]
        off_grid_y[of "int (j div 3)" "sint py" "int (i div 3)"] by blast
  qed
  then have none: "\<not> button_hit (phone_button ! j) px py" if "j < length phone_button" for j
    using that by (simp add: length_phone_button button_hit_iff)
  have "for_buttons e px py 0 s = Some s"
    using none by (intro for_buttons_no_hit) simp
  then show ?thesis using none[OF assms(1)] by simp
qed

theorem boundary_point_selects_nothing_witness:
  "4 < length phone_button \<and> on_boundary (phone_button ! 4) 94 124
   \<and> \<not> button_hit (phone_button ! 4) 94 124
   \<and> for_buttons quiet_env 94 124 0 init_state = Some init_state"
proof -
  have a: "4 < length phone_button" by (simp add: length_phone_button)
  have b: "on_boundary (phone_button ! 4) 94 124"
    by (simp add: on_boundary_def phone_button_def ui_defs)
  show ?thesis
    using a b boundary_point_selects_nothing[OF a b, of quiet_env init_state] by simp
qed

text \<open>
  C4. However the loop has been driven from the initial state, the count \<open>n\<close> is at
  most 13 at every iteration boundary. A press of a digit, \<^verbatim>\<open>#\<close> or \<^verbatim>\<open>*\<close> key (buttons 0
  to 11) with the count at 13, and a press of \<^verbatim>\<open>dele\<close> (button 14) with the count at 0,
  return the state they started from, extended only by the sampling events and the flash
  of the key: count and cursor keep their values and nothing is drawn on the dial line.
\<close>

theorem dial_count_bounded:
  "(run e init_state ps = Some s \<longrightarrow> unat (n s) \<le> 13)
   \<and> (i < 12 \<and> presses i p \<and> n t = 13 \<longrightarrow>
        loop e p t = Some (t\<lparr>out := out t @ sample_touch @ flash (phone_button ! i)\<rparr>))
   \<and> (presses 14 q \<and> n u = 0 \<longrightarrow>
        loop e q u = Some (u\<lparr>out := out u @ sample_touch @ flash (phone_button ! 14)\<rparr>))"
proof (intro conjI impI)
  assume "run e init_state ps = Some s"
  from run_inv[OF this cursor_inv_init] show "unat (n s) \<le> 13"
    by (simp add: cursor_inv_def)
next
  assume a: "i < 12 \<and> presses i p \<and> n t = 13"
  then show "loop e p t = Some (t\<lparr>out := out t @ sample_touch @ flash (phone_button ! i)\<rparr>)"
    using loop_press[of i p e t] button_body_digit_full[of i "emit sample_touch t" e]
    by (simp add: emit_def)
next
  assume a: "presses 14 q \<and> n u = 0"
  then show "loop e q u = Some (u\<lparr>out := out u @ sample_touch @ flash (phone_button ! 14)\<rparr>)"
    using loop_press[of 14 q e u] button_body_delete_empty[of "emit sample_touch u" e]
    by (simp add: emit_def)
qed

theorem dial_count_bounded_witness:
  "(\<exists>s. run quiet_env init_state (replicate 14 touch_5) = Some s \<and> unat (n s) \<le> 13)
   \<and> presses 4 touch_5
   \<and> loop quiet_env touch_5 (init_state\<lparr>text_x := 231, n := 13\<rparr>)
       = Some (init_state\<lparr>text_x := 231, n := 13, out := sample_touch @ flash (phone_button ! 4)\<rparr>)
   \<and> presses 14 touch_dele
   \<and> loop quiet_env touch_dele init_state
       = Some (init_state\<lparr>out := sample_touch @ flash (phone_button ! 14)\<rparr>)"
proof -
  from run_digits[OF digit_presses_touch_5[of 14] cursor_inv_init, of quiet_env]
  obtain s where r: "run quiet_env init_state (replicate 14 touch_5) = Some s" by blast
  show ?thesis
    using r presses_touch_5 presses_touch_dele
      dial_count_bounded[of quiet_env "replicate 14 touch_5" s 4 touch_5
        "init_state\<lparr>text_x := 231, n := 13\<rparr>" touch_dele init_state]
    by (simp add: init_state_def)
qed

text \<open>
  C5. From the initial state, \<open>N\<close> presses of digit, \<^verbatim>\<open>#\<close> or \<^verbatim>\<open>*\<close> keys followed by
  \<open>N\<close> presses of \<^verbatim>\<open>dele\<close> end with count 0 and the cursor at 10, for every \<open>N\<close>.
  After the first \<open>k\<close> of the deletes the count is \<open>min N 13 - k\<close> and the cursor is at
  \<open>10 + (min N 13 - k) * (text_x_add - 1)\<close>. Not every delete steps the cursor: delete
  number \<open>k + 1\<close> steps it back by \<open>text_x_add - 1\<close> pixels, the advance of an append, and
  lowers the count by one when \<open>k < min N 13\<close>, and leaves both as they are otherwise.
  So every delete steps the cursor when \<open>N \<le> 13\<close>, and only the first 13 do when
  \<open>N > 13\<close>.
\<close>

theorem append_then_delete_round_trip:
  assumes "\<forall>p\<in>set ds. \<exists>i<12. presses i p" and "\<forall>p\<in>set dels. presses 14 p"
    and "length dels = length ds"
  shows "(\<exists>s1. run e init_state (ds @ dels) = Some s1 \<and> n s1 = 0 \<and> text_x s1 = 10)
       \<and> (\<forall>k\<le>length dels. \<exists>s2. run e init_state (ds @ take k dels) = Some s2
              \<and> unat (n s2) = min (length ds) 13 - k
              \<and> unat (text_x s2) = 10 + (min (length ds) 13 - k) * unat (text_x_add - 1))
       \<and> (\<forall>k<length dels. \<exists>s2 s3. run e init_state (ds @ take k dels) = Some s2
              \<and> loop e (dels ! k) s2 = Some s3
              \<and> (if k < min (length ds) 13
                  then unat (text_x s3) + unat (text_x_add - 1) = unat (text_x s2)
                       \<and> unat (n s3) + 1 = unat (n s2)
                  else text_x s3 = text_x s2 \<and> n s3 = n s2))"
proof -
  have step: "\<exists>s2. run e init_state (ds @ take k dels) = Some s2 \<and> cursor_inv s2
              \<and> unat (n s2) = min (length ds) 13 - k"
    if "k \<le> length dels" for k
  proof -
    have "\<forall>p\<in>set (take k dels). presses 14 p" using assms(2) by (meson in_set_takeD)
    from run_digits_deletes[OF assms(1) this, of e] that show ?thesis by (simp add: min_absorb2)
  qed
  have second: "\<exists>s2. run e init_state (ds @ take k dels) = Some s2
              \<and> unat (n s2) = min (length ds) 13 - k
              \<and> unat (text_x s2) = 10 + (min (length ds) 13 - k) * unat (text_x_add - 1)"
    if "k \<le> length dels" for k
    using step[OF that] by (auto simp: cursor_inv_def)
  from second[of "length dels"] obtain s1 where
    e1: "run e init_state (ds @ dels) = Some s1" "unat (n s1) = min (length ds) 13 - length dels"
      "unat (text_x s1) = 10 + (min (length ds) 13 - length dels) * unat (text_x_add - 1)"
    by auto
  have u: "unat (n s1) = 0" "unat (text_x s1) = 10" using e1(2,3) assms(3) by simp_all
  have "n s1 = 0" using u(1) by (simp add: unat_eq_0)
  moreover have "text_x s1 = of_nat (unat (text_x s1))" by simp
  then have "text_x s1 = 10" unfolding u(2) by simp
  ultimately have first: "\<exists>s1. run e init_state (ds @ dels) = Some s1 \<and> n s1 = 0 \<and> text_x s1 = 10"
    using e1(1) by blast
  have third: "\<exists>s2 s3. run e init_state (ds @ take k dels) = Some s2
              \<and> loop e (dels ! k) s2 = Some s3
              \<and> (if k < min (length ds) 13
                  then unat (text_x s3) + unat (text_x_add - 1) = unat (text_x s2)
                       \<and> unat (n s3) + 1 = unat (n s2)
                  else text_x s3 = text_x s2 \<and> n s3 = n s2)"
    if k: "k < length dels" for k
  proof -
    from step[of k] k obtain s2 where
      s2: "run e init_state (ds @ take k dels) = Some s2" "cursor_inv s2"
        "unat (n s2) = min (length ds) 13 - k" by auto
    have "presses 14 (dels ! k)" using assms(2) k by simp
    from loop_delete[OF this s2(2), of e] obtain s3 where
      s3: "loop e (dels ! k) s2 = Some s3" "cursor_inv s3" "unat (n s3) = unat (n s2) - 1" by blast
    have tx: "unat (text_x s2) = 10 + unat (n s2) * 17" "unat (text_x s3) = 10 + unat (n s3) * 17"
      using s2(2) s3(2) by (simp_all add: cursor_inv_def advance_eval)
    show ?thesis
    proof (cases "k < min (length ds) 13")
      case True
      then have "0 < unat (n s2)" using s2(3) by simp
      then have "unat (text_x s3) + unat (text_x_add - 1) = unat (text_x s2)
                 \<and> unat (n s3) + 1 = unat (n s2)"
        using tx s3(3) by (simp add: advance_eval)
      then show ?thesis using True s2(1) s3(1) by auto
    next
      case False
      then have "min (length ds) 13 \<le> k" by arith
      then have "unat (n s2) = 0" using s2(3) by simp
      then have "unat (n s3) = unat (n s2)" "unat (text_x s3) = unat (text_x s2)"
        using tx s3(3) by simp_all
      then have "n s3 = n s2" "text_x s3 = text_x s2"
        by (simp_all only: word_unat_eq_iff)
      then show ?thesis using False s2(1) s3(1) by auto
    qed
  qed
  show ?thesis using first second third by blast
qed

theorem append_then_delete_round_trip_witness:
  "(\<exists>s1. run quiet_env init_state (replicate 14 touch_5 @ replicate 14 touch_dele) = Some s1
         \<and> n s1 = 0 \<and> text_x s1 = 10)
   \<and> (\<exists>s2. run quiet_env init_state (replicate 14 touch_5 @ take 3 (replicate 14 touch_dele)) = Some s2
         \<and> unat (n s2) = 10 \<and> unat (text_x s2) = 180)"
proof -
  have len: "length (replicate 14 touch_dele) = length (replicate 14 touch_5)" by simp
  from append_then_delete_round_trip[OF digit_presses_touch_5[of 14] delete_presses_touch_dele[of 14] len, of quiet_env]
  have a: "\<exists>s1. run quiet_env init_state (replicate 14 touch_5 @ replicate 14 touch_dele) = Some s1
         \<and> n s1 = 0 \<and> text_x s1 = 10"
    and b: "\<forall>k\<le>14. \<exists>s2. run quiet_env init_state (replicate 14 touch_5 @ take k (replicate 14 touch_dele)) = Some s2
              \<and> unat (n s2) = 13 - k \<and> unat (text_x s2) = 10 + (13 - k) * unat (text_x_add - 1)"
    by simp_all
  from b have "\<exists>s2. run quiet_env init_state (replicate 14 touch_5 @ take 3 (replicate 14 touch_dele)) = Some s2
              \<and> unat (n s2) = 13 - 3 \<and> unat (text_x s2) = 10 + (13 - 3) * unat (text_x_add - 1)"
    by (rule allE[of _ 3]) simp
  then show ?thesis using a by (simp add: advance_eval)
qed

text \<open>
  With fourteen presses of \<^verbatim>\<open>5\<close> only thirteen characters are appended, and the fourteenth
  press of \<^verbatim>\<open>dele\<close> finds the line empty: it does not step the cursor.
\<close>

theorem fourteenth_delete_counterexample:
  "dial_line (run quiet_env init_state (replicate 14 touch_5)) = Some (13, 231)
   \<and> dial_line (run quiet_env init_state (replicate 14 touch_5 @ replicate 13 touch_dele)) = Some (0, 10)
   \<and> dial_line (run quiet_env init_state (replicate 14 touch_5 @ replicate 14 touch_dele)) = Some (0, 10)"
  using dial_line_digits_deletes[of 14 0] dial_line_digits_deletes[of 14 13]
    dial_line_digits_deletes[of 14 14]
  by simp

text \<open>
  C6. A press of \<^verbatim>\<open>call\<close> (button 13) is the dial step, a relay, the hang-up step and a
  second relay. The dial step always runs: the banner \<^verbatim>\<open>Calling...\<close>, then one line, the
  dial command, which matches \<^verbatim>\<open>ATD\+?\d+;\<close>. If in the first relay the console buffer is first
  found empty at its poll \<open>j1\<close> and the modem buffer at its poll \<open>j2\<close>, that relay ends:
  the console bytes read until then go to the modem as they are, the modem bytes go to the
  console, and then, after the hold of 20000 ms, one line \<^verbatim>\<open>ATH\<close> is printed. Up to there the
  modem link has carried the dial command, the relayed console bytes and \<^verbatim>\<open>ATH\<close>, in this
  order and nothing else; the two printed lines are the only ones the sketch prints; no
  touch sample is taken in between; count and cursor are unchanged. The iteration then
  returns exactly when the second relay ends. If in the first relay one of the two buffers
  is never found empty, that relay never ends: the hang-up step is not reached and the
  iteration does not return.
\<close>

theorem call_press_sequence:
  assumes "presses 13 p"
  shows "loop e p s =
       (case updateSerial e (call_dial (emit (sample_touch @ flash (phone_button ! 13)) s)) of
          None \<Rightarrow> None
        | Some s1 \<Rightarrow> updateSerial e (call_hang_up s1))
     \<and> out (call_dial (emit (sample_touch @ flash (phone_button ! 13)) s)) =
          out s @ sample_touch @ flash (phone_button ! 13)
          @ [Set_Draw_color BLUE, Fill_Rectangle 0 33 239 42, Set_Text_Mode True,
             Set_Text_Size 1, Set_Text_colour OLIVE, Set_Text_Back_colour BLACK,
             Print_String ''Calling...'' CENTER 33]
          @ [mySerial_println ''ATD+916374354166;'']
     \<and> matches_dial_pattern ''ATD+916374354166;''
     \<and> (\<forall>j1 j2. first_empty (Serial_rx e) (Serial_polls s) j1
                \<and> first_empty (mySerial_rx e) (mySerial_polls s) j2 \<longrightarrow>
          (\<exists>s1. updateSerial e (call_dial (emit (sample_touch @ flash (phone_button ! 13)) s)) = Some s1
             \<and> out (call_hang_up s1) =
                  out (call_dial (emit (sample_touch @ flash (phone_button ! 13)) s))
                  @ [delay 500]
                  @ map mySerial_write (polled (Serial_rx e) (Serial_polls s) j1)
                  @ map Serial_write (polled (mySerial_rx e) (mySerial_polls s) j2)
                  @ [delay 20000, mySerial_println ''ATH'']
             \<and> modem_commands (out (call_hang_up s1))
                  = modem_commands (out s) @ [''ATD+916374354166;'', ''ATH'']
             \<and> filter to_modem (out (call_hang_up s1)) =
                  filter to_modem (out s) @ [mySerial_println ''ATD+916374354166;'']
                  @ map mySerial_write (polled (Serial_rx e) (Serial_polls s) j1)
                  @ [mySerial_println ''ATH'']
             \<and> ts_getPoint \<notin> set ([delay 500]
                  @ map mySerial_write (polled (Serial_rx e) (Serial_polls s) j1)
                  @ map Serial_write (polled (mySerial_rx e) (mySerial_polls s) j2)
                  @ [delay 20000])
             \<and> n s1 = n s \<and> text_x s1 = text_x s
             \<and> loop e p s = updateSerial e (call_hang_up s1)
             \<and> (\<forall>j3 j4. first_empty (Serial_rx e) (Serial_polls s + j1 + 1) j3
                        \<and> first_empty (mySerial_rx e) (mySerial_polls s + j2 + 1) j4 \<longrightarrow>
                  (\<exists>s2. loop e p s = Some s2
                     \<and> out s2 = out (call_hang_up s1) @ [delay 500]
                          @ map mySerial_write (polled (Serial_rx e) (Serial_polls s + j1 + 1) j3)
                          @ map Serial_write (polled (mySerial_rx e) (mySerial_polls s + j2 + 1) j4)
                     \<and> n s2 = n s \<and> text_x s2 = text_x s))))
     \<and> ((\<forall>j. Serial_rx e (Serial_polls s + j) \<noteq> None)
          \<or> (\<forall>j. mySerial_rx e (mySerial_polls s + j) \<noteq> None) \<longrightarrow>
          updateSerial e (call_dial (emit (sample_touch @ flash (phone_button ! 13)) s)) = None
          \<and> loop e p s = None)"
proof (intro conjI allI impI)
  let ?d = "call_dial (emit (sample_touch @ flash (phone_button ! 13)) s)"
  show lp: "loop e p s = (case updateSerial e ?d of None \<Rightarrow> None
        | Some s1 \<Rightarrow> updateSerial e (call_hang_up s1))"
    by (rule loop_call[OF assms])
  show "out ?d = out s @ sample_touch @ flash (phone_button ! 13)
          @ [Set_Draw_color BLUE, Fill_Rectangle 0 33 239 42, Set_Text_Mode True,
             Set_Text_Size 1, Set_Text_colour OLIVE, Set_Text_Back_colour BLACK,
             Print_String ''Calling...'' CENTER 33]
          @ [mySerial_println ''ATD+916374354166;'']"
    by (rule out_call_dial)
  show "matches_dial_pattern ''ATD+916374354166;''" by (rule dial_literal_matches)
  {
    assume "(\<forall>j. Serial_rx e (Serial_polls s + j) \<noteq> None)
          \<or> (\<forall>j. mySerial_rx e (mySerial_polls s + j) \<noteq> None)"
    then show none: "updateSerial e ?d = None"
      by (intro updateSerial_never_empty) (simp add: polls_call_dial)
    show "loop e p s = None" using lp none by simp
  }
  fix j1 j2
  assume fe: "first_empty (Serial_rx e) (Serial_polls s) j1
                \<and> first_empty (mySerial_rx e) (mySerial_polls s) j2"
  let ?s1 = "?d\<lparr>out := out ?d @ [delay 500]
                  @ map mySerial_write (polled (Serial_rx e) (Serial_polls s) j1)
                  @ map Serial_write (polled (mySerial_rx e) (mySerial_polls s) j2),
             Serial_polls := Serial_polls s + j1 + 1,
             mySerial_polls := mySerial_polls s + j2 + 1\<rparr>"
  have u1: "updateSerial e ?d = Some ?s1"
    using updateSerial_exact[of e ?d j1 j2] fe by (simp add: polls_call_dial)
  have lp2: "loop e p s = updateSerial e (call_hang_up ?s1)" using lp u1 by simp
  have tail: "\<exists>s2. loop e p s = Some s2
                     \<and> out s2 = out (call_hang_up ?s1) @ [delay 500]
                          @ map mySerial_write (polled (Serial_rx e) (Serial_polls s + j1 + 1) j3)
                          @ map Serial_write (polled (mySerial_rx e) (mySerial_polls s + j2 + 1) j4)
                     \<and> n s2 = n s \<and> text_x s2 = text_x s"
    if "first_empty (Serial_rx e) (Serial_polls s + j1 + 1) j3
                        \<and> first_empty (mySerial_rx e) (mySerial_polls s + j2 + 1) j4" for j3 j4
    using updateSerial_exact[of e "call_hang_up ?s1" j3 j4] that lp2
    by (simp add: call_hang_up_def call_dial_def emit_def)
  show "\<exists>s1. updateSerial e ?d = Some s1
             \<and> out (call_hang_up s1) = out ?d @ [delay 500]
                  @ map mySerial_write (polled (Serial_rx e) (Serial_polls s) j1)
                  @ map Serial_write (polled (mySerial_rx e) (mySerial_polls s) j2)
                  @ [delay 20000, mySerial_println ''ATH'']
             \<and> modem_commands (out (call_hang_up s1))
                  = modem_commands (out s) @ [''ATD+916374354166;'', ''ATH'']
             \<and> filter to_modem (out (call_hang_up s1)) =
                  filter to_modem (out s) @ [mySerial_println ''ATD+916374354166;'']
                  @ map mySerial_write (polled (Serial_rx e) (Serial_polls s) j1)
                  @ [mySerial_println ''ATH'']
             \<and> ts_getPoint \<notin> set ([delay 500]
                  @ map mySerial_write (polled (Serial_rx e) (Serial_polls s) j1)
                  @ map Serial_write (polled (mySerial_rx e) (mySerial_polls s) j2)
                  @ [delay 20000])
             \<and> n s1 = n s \<and> text_x s1 = text_x s
             \<and> loop e p s = updateSerial e (call_hang_up s1)
             \<and> (\<forall>j3 j4. first_empty (Serial_rx e) (Serial_polls s + j1 + 1) j3
                        \<and> first_empty (mySerial_rx e) (mySerial_polls s + j2 + 1) j4 \<longrightarrow>
                  (\<exists>s2. loop e p s = Some s2
                     \<and> out s2 = out (call_hang_up s1) @ [delay 500]
                          @ map mySerial_write (polled (Serial_rx e) (Serial_polls s + j1 + 1) j3)
                          @ map Serial_write (polled (mySerial_rx e) (mySerial_polls s + j2 + 1) j4)
                     \<and> n s2 = n s \<and> text_x s2 = text_x s))"
  proof (intro exI[of _ ?s1] conjI)
    show "updateSerial e ?d = Some ?s1" by (rule u1)
    show "loop e p s = updateSerial e (call_hang_up ?s1)" by (rule lp2)
    show "\<forall>j3 j4. first_empty (Serial_rx e) (Serial_polls s + j1 + 1) j3
                        \<and> first_empty (mySerial_rx e) (mySerial_polls s + j2 + 1) j4 \<longrightarrow>
                  (\<exists>s2. loop e p s = Some s2
                     \<and> out s2 = out (call_hang_up ?s1) @ [delay 500]
                          @ map mySerial_write (polled (Serial_rx e) (Serial_polls s + j1 + 1) j3)
                          @ map Serial_write (polled (mySerial_rx e) (mySerial_polls s + j2 + 1) j4)
                     \<and> n s2 = n s \<and> text_x s2 = text_x s)"
      using tail by blast
  qed (auto simp: call_hang_up_def call_dial_def emit_def banner_eval filter_to_modem_display
        filter_to_modem_relayed)
qed

theorem call_press_sequence_witness:
  "presses 13 touch_call
   \<and> first_empty (Serial_rx answering_env) (Serial_polls init_state) 0
   \<and> first_empty (mySerial_rx answering_env) (mySerial_polls init_state) 2
   \<and> (\<exists>s2. loop answering_env touch_call init_state = Some s2
         \<and> filter to_modem (out s2) = [mySerial_println ''ATD+916374354166;'', mySerial_println ''ATH'']
         \<and> n s2 = 0 \<and> text_x s2 = 10)"
proof -
  have a: "first_empty (Serial_rx answering_env) (Serial_polls init_state) 0
           \<and> first_empty (mySerial_rx answering_env) (mySerial_polls init_state) 2"
    by (simp add: first_empty_def answering_env_def init_state_def less_Suc_eq numeral_2_eq_2)
  have b: "first_empty (Serial_rx answering_env) (Serial_polls init_state + 0 + 1) 0
           \<and> first_empty (mySerial_rx answering_env) (mySerial_polls init_state + 2 + 1) 0"
    by (simp add: first_empty_def answering_env_def init_state_def)
  from call_press_sequence[OF presses_touch_call, of answering_env init_state] a
  obtain s1 where s1: "filter to_modem (out (call_hang_up s1)) =
        filter to_modem (out init_state) @ [mySerial_println ''ATD+916374354166;'']
        @ map mySerial_write (polled (Serial_rx answering_env) (Serial_polls init_state) 0)
        @ [mySerial_println ''ATH'']"
    and rest: "\<forall>j3 j4. first_empty (Serial_rx answering_env) (Serial_polls init_state + 0 + 1) j3
                 \<and> first_empty (mySerial_rx answering_env) (mySerial_polls init_state + 2 + 1) j4 \<longrightarrow>
           (\<exists>s2. loop answering_env touch_call init_state = Some s2
              \<and> out s2 = out (call_hang_up s1) @ [delay 500]
                   @ map mySerial_write (polled (Serial_rx answering_env) (Serial_polls init_state + 0 + 1) j3)
                   @ map Serial_write (polled (mySerial_rx answering_env) (mySerial_polls init_state + 2 + 1) j4)
              \<and> n s2 = n init_state \<and> text_x s2 = text_x init_state)"
    by blast
  from rest b obtain s2 where s2: "loop answering_env touch_call init_state = Some s2"
    "out s2 = out (call_hang_up s1) @ [delay 500]
         @ map mySerial_write (polled (Serial_rx answering_env) (Serial_polls init_state + 0 + 1) 0)
         @ map Serial_write (polled (mySerial_rx answering_env) (mySerial_polls init_state + 2 + 1) 0)"
    "n s2 = n init_state" "text_x s2 = text_x init_state"
    by blast
  have "filter to_modem (out s2) = [mySerial_println ''ATD+916374354166;'', mySerial_println ''ATH'']"
    using s1 s2(2) by (simp add: polled_def init_state_def)
  then show ?thesis using presses_touch_call a s2 by (auto simp: init_state_def)
qed

text \<open>
  With a console that is fed for ever, the first relay of a press of \<^verbatim>\<open>call\<close> never ends:
  the hang-up step, which runs on the result of that relay, is not reached. With a console
  on which the operator has typed a dial command, the modem link carries two dial commands
  before \<^verbatim>\<open>ATH\<close>.
\<close>

theorem call_press_counterexample:
  "presses 13 touch_call
   \<and> loop flooding_env touch_call init_state =
       Option.bind
         (updateSerial flooding_env (call_dial (emit (sample_touch @ flash (phone_button ! 13)) init_state)))
         (updateSerial flooding_env \<circ> call_hang_up)
   \<and> updateSerial flooding_env (call_dial (emit (sample_touch @ flash (phone_button ! 13)) init_state)) = None
   \<and> loop flooding_env touch_call init_state = None
   \<and> modem_traffic (loop typing_env touch_call init_state) =
       Some (mySerial_println ''ATD+916374354166;''
             # map (mySerial_write \<circ> of_char) (''ATD112;'' @ [CHR 0x0D, CHR 0x0A])
             @ [mySerial_println ''ATH''])
   \<and> matches_dial_pattern ''ATD112;''"
proof -
  let ?d = "call_dial (emit (sample_touch @ flash (phone_button ! 13)) init_state)"
  have fl: "updateSerial flooding_env ?d = None"
    using flooding_never_empty by (intro updateSerial_never_empty) blast
  have lf: "loop flooding_env touch_call init_state = None"
    using loop_call[OF presses_touch_call, of flooding_env init_state] fl by simp
  let ?s1 = "?d\<lparr>out := out ?d @ [delay 500]
                  @ map mySerial_write (polled (Serial_rx typing_env) (Serial_polls ?d) 9)
                  @ map Serial_write (polled (mySerial_rx typing_env) (mySerial_polls ?d) 0),
             Serial_polls := Serial_polls ?d + 9 + 1,
             mySerial_polls := mySerial_polls ?d + 0 + 1\<rparr>"
  have u1: "updateSerial typing_env ?d = Some ?s1"
    using first_empty_typing
    by (intro updateSerial_exact) (simp_all add: polls_call_dial init_state_def)
  let ?h = "call_hang_up ?s1"
  let ?s2 = "?h\<lparr>out := out ?h @ [delay 500]
                  @ map mySerial_write (polled (Serial_rx typing_env) (Serial_polls ?h) 0)
                  @ map Serial_write (polled (mySerial_rx typing_env) (mySerial_polls ?h) 0),
             Serial_polls := Serial_polls ?h + 0 + 1,
             mySerial_polls := mySerial_polls ?h + 0 + 1\<rparr>"
  have u2: "updateSerial typing_env ?h = Some ?s2"
    using first_empty_typing
    by (intro updateSerial_exact)
       (simp_all add: polls_call_dial call_hang_up_def emit_def call_dial_def init_state_def)
  have "loop typing_env touch_call init_state = Some ?s2"
    using loop_call[OF presses_touch_call, of typing_env init_state] u1 u2 by simp
  then have "modem_traffic (loop typing_env touch_call init_state) =
       Some (mySerial_println ''ATD+916374354166;''
             # map (mySerial_write \<circ> of_char) typed_line @ [mySerial_println ''ATH''])"
    by (simp add: modem_traffic_def call_hang_up_def call_dial_def emit_def init_state_def
          polled_typing filter_to_modem_display filter_to_modem_relayed)
  moreover have "matches_dial_pattern ''ATD112;''"
    by (simp add: matches_dial_pattern_def is_digit_def)
  ultimately show ?thesis using presses_touch_call fl lf by (simp add: typed_line_def)
qed

text \<open>
  C7. A press of \<^verbatim>\<open>end\<close> (button 12) flashes the key, clears the banner strip (rows 33
  to 42 over the full width, in the background colour) and prints \<^verbatim>\<open>Calling ended\<close>.
  The count \<open>n\<close> and the cursor \<open>text_x\<close> keep their values, and none of the events of
  the iteration writes to the modem link.
\<close>

theorem end_press_banner_only:
  assumes "presses 12 p"
  shows "\<exists>s1. loop e p s = Some s1 \<and> n s1 = n s \<and> text_x s1 = text_x s
     \<and> out s1 = out s @ sample_touch @ flash (phone_button ! 12)
         @ [Set_Draw_color BLUE, Fill_Rectangle 0 33 239 42, Set_Text_Mode True,
            Set_Text_Size 1, Set_Text_colour OLIVE, Set_Text_Back_colour BLACK,
            Print_String ''Calling ended'' CENTER 33]
     \<and> list_all (\<lambda>ev. \<not> to_modem ev) (drop (length (out s)) (out s1))"
proof -
  have "loop e p s = Some (s\<lparr>out := out s @ sample_touch @ flash (phone_button ! 12)
          @ banner ''Calling ended''\<rparr>)"
    using loop_press[of 12 p e s] assms by (simp add: button_body_end emit_def)
  moreover have "list_all (\<lambda>ev. \<not> to_modem ev) (sample_touch @ flash (phone_button ! 12) @ banner ''Calling ended'')"
    unfolding list_all_iff using no_modem_display by blast
  ultimately show ?thesis by (simp add: banner_eval)
qed

theorem end_press_banner_only_witness:
  "presses 12 touch_end
   \<and> (\<exists>s1. loop quiet_env touch_end init_state = Some s1 \<and> n s1 = 0 \<and> text_x s1 = 10
        \<and> modem_commands (out s1) = [] \<and> last (out s1) = Print_String ''Calling ended'' CENTER 33)"
  using presses_touch_end end_press_banner_only[OF presses_touch_end, of quiet_env init_state]
  by (auto simp: init_state_def)

text \<open>
  C8. The lines sent by a press of \<^verbatim>\<open>call\<close> are the same literal whatever the state the
  press starts from (any count, any cursor, any earlier trace) and whatever the serial
  environment: the dialled number is never built from the dial line. The press returns
  when both receive buffers are eventually quiet.
\<close>

theorem dialled_number_is_fixed:
  assumes "presses 13 p" and "presses 13 q"
  shows "(\<forall>s1 t1. loop e p s = Some s1 \<longrightarrow> loop e' q t = Some t1 \<longrightarrow>
            modem_commands (drop (length (out s)) (out s1)) = [''ATD+916374354166;'', ''ATH'']
            \<and> modem_commands (drop (length (out t)) (out t1))
                = modem_commands (drop (length (out s)) (out s1)))
       \<and> (eventually_quiet (Serial_rx e) \<and> eventually_quiet (mySerial_rx e)
            \<longrightarrow> (\<exists>s1. loop e p s = Some s1))"
proof -
  have *: "modem_commands (drop (length (out s)) (out s1)) = [''ATD+916374354166;'', ''ATH'']"
    if "presses 13 p" "loop e p s = Some s1" for e p s s1
  proof -
    have "button_body e 13 (emit sample_touch s) = Some s1"
      using loop_press[of 13 p e s] that by simp
    from button_body_call_frame[OF this] obtain bs1 cs1 bs2 cs2 where
      "out s1 = out s @ (sample_touch @ flash (phone_button ! 13) @ banner ''Calling...''
           @ [mySerial_println ''ATD+916374354166;'', delay 500]
           @ map mySerial_write bs1 @ map Serial_write cs1
           @ [delay 20000, mySerial_println ''ATH'', delay 500]
           @ map mySerial_write bs2 @ map Serial_write cs2)"
      by (auto simp: emit_def)
    then show ?thesis by simp
  qed
  have "\<exists>s1. loop e p s = Some s1"
    if "eventually_quiet (Serial_rx e) \<and> eventually_quiet (mySerial_rx e)"
    using that assms(1) loop_press[of 13 p e s] button_body_call_returns[of e "emit sample_touch s"]
    by simp
  then show ?thesis using *[OF assms(1)] *[OF assms(2)] by simp
qed

theorem dialled_number_is_fixed_witness:
  "presses 13 touch_call
   \<and> (\<exists>s1 t1. loop quiet_env touch_call init_state = Some s1
        \<and> loop answering_env touch_call (init_state\<lparr>text_x := 61, n := 3\<rparr>) = Some t1
        \<and> modem_commands (drop (length (out init_state)) (out s1)) = [''ATD+916374354166;'', ''ATH'']
        \<and> modem_commands (drop (length (out (init_state\<lparr>text_x := 61, n := 3\<rparr>))) (out t1))
            = [''ATD+916374354166;'', ''ATH''])"
proof -
  let ?t = "init_state\<lparr>text_x := 61, n := 3\<rparr>"
  note fixed = dialled_number_is_fixed[OF presses_touch_call presses_touch_call,
      of quiet_env init_state answering_env ?t]
  from fixed quiet_env_quiet obtain s1 where a: "loop quiet_env touch_call init_state = Some s1"
    by blast
  obtain t1 where b: "loop answering_env touch_call ?t = Some t1"
    using button_body_call_returns[OF answering_env_quiet] loop_press[of 13 touch_call answering_env ?t]
      presses_touch_call by auto
  from fixed a b presses_touch_call show ?thesis by auto
qed

text \<open>
  C9. At every iteration boundary reached from the initial state the cursor is at
  \<open>10 + n * (text_x_add - 1)\<close>, where \<open>text_x_add - 1 = 17\<close>; so it is never left of
  the text origin, and an iteration that moves it to the right has increased the count.
\<close>

theorem cursor_tracks_count:
  assumes "run e init_state ps = Some s"
  shows "unat (text_x s) = 10 + unat (n s) * unat (text_x_add - 1)
       \<and> unat (text_x_add - 1) = 17
       \<and> 10 \<le> unat (text_x s)
       \<and> (\<forall>p s1. loop e p s = Some s1 \<longrightarrow> unat (text_x s) < unat (text_x s1)
              \<longrightarrow> unat (n s) < unat (n s1))"
proof -
  have inv: "cursor_inv s" using run_inv[OF assms cursor_inv_init] .
  have "unat (n s) < unat (n s1)"
    if "loop e p s = Some s1" "unat (text_x s) < unat (text_x s1)" for p s1
  proof -
    have "cursor_inv s1" using loop_inv[OF that(1) inv] .
    then show ?thesis using inv that(2) by (simp add: cursor_inv_def advance_eval)
  qed
  then show ?thesis using inv by (auto simp: cursor_inv_def advance_eval)
qed

theorem cursor_tracks_count_witness:
  "\<exists>s. run quiet_env init_state (replicate 3 touch_5) = Some s
       \<and> unat (n s) = 3 \<and> unat (text_x s) = 61"
proof -
  from run_digits[OF digit_presses_touch_5[of 3] cursor_inv_init, of quiet_env]
  obtain s where r: "run quiet_env init_state (replicate 3 touch_5) = Some s" "unat (n s) = 3"
    by (auto simp: init_state_def)
  from cursor_tracks_count[OF r(1)] r show ?thesis by auto
qed



end
